theory Spec2Isabelle
  imports Main
begin

section \<open>Text, characters and the library functions the converter calls\<close>

text \<open>
  The converter \<^verbatim>\<open>convert_hexchat_to_weechat.py\<close> works on Python strings. A string is
  modelled as a \<^typ>\<open>string\<close>, each \<^typ>\<open>char\<close> standing for one code point below 256.
  In that range the regular-expression class \<^verbatim>\<open>\d\<close> is the ten ASCII digits, and
  \<^verbatim>\<open>\s\<close> is the twelve code points listed in \<open>is_space\<close>.
\<close>

definition TAB :: char where "TAB = CHR 0x09"
definition NL :: char where "NL = CHR 0x0A"
definition CR :: char where "CR = CHR 0x0D"
definition ETX :: char where "ETX = CHR 0x03"

definition ord :: "char \<Rightarrow> nat" where
  "ord c = of_char c"

definition is_digit :: "char \<Rightarrow> bool" where
  "is_digit c \<longleftrightarrow> c \<in> set ''0123456789''"

text \<open>The class \<^verbatim>\<open>\s\<close> of a \<^verbatim>\<open>str\<close> pattern, restricted to code points below 256.\<close>

definition is_space :: "char \<Rightarrow> bool" where
  "is_space c \<longleftrightarrow> c \<in> set [CHR 0x09, CHR 0x0A, CHR 0x0B, CHR 0x0C, CHR 0x0D,
      CHR 0x1C, CHR 0x1D, CHR 0x1E, CHR 0x1F, CHR 0x20, CHR 0x85, CHR 0xA0]"

text \<open>\<^verbatim>\<open>s.rstrip('\n\r')\<close>: every trailing newline and carriage return is removed.\<close>

definition rstrip_nl :: "string \<Rightarrow> string" where
  "rstrip_nl s = rev (dropWhile (\<lambda>c. c = NL \<or> c = CR) (rev s))"

text \<open>\<^verbatim>\<open>s.startswith(p)\<close>.\<close>

definition startswith :: "string \<Rightarrow> string \<Rightarrow> bool" where
  "startswith s p \<longleftrightarrow> take (length p) s = p"

text \<open>
  \<^verbatim>\<open>s.split(sep, maxsplit)\<close> for a one-character separator: the string is cut at the
  first \<open>maxsplit\<close> occurrences of the separator and nowhere else.
\<close>

fun split_sep :: "char \<Rightarrow> nat \<Rightarrow> string \<Rightarrow> string list" where
  "split_sep sep 0 s = [s]"
| "split_sep sep (Suc n) s =
     (if sep \<in> set s
      then takeWhile (\<lambda>c. c \<noteq> sep) s # split_sep sep n (tl (dropWhile (\<lambda>c. c \<noteq> sep) s))
      else [s])"

section \<open>Stripping mIRC colour and formatting codes\<close>

text \<open>
  \<^verbatim>\<open>\d{1,2}\<close> at the head of a string, greedy: the rest after one or two digits, or
  \<open>None\<close> when the string does not start with a digit.
\<close>

fun drop_digits12 :: "string \<Rightarrow> string option" where
  "drop_digits12 [] = None"
| "drop_digits12 [a] = (if is_digit a then Some [] else None)"
| "drop_digits12 (a # b # s) =
     (if is_digit a then Some (if is_digit b then s else b # s) else None)"

text \<open>
  \<^verbatim>\<open>(\d{1,2}(,\d{1,2})?)?\<close> at the head of a string: the rest after the longest
  colour argument the pattern takes, the whole string when there is none.
\<close>

definition drop_color_args :: "string \<Rightarrow> string" where
  "drop_color_args s =
     (case drop_digits12 s of
        None \<Rightarrow> s
      | Some r \<Rightarrow>
          (case r of
             [] \<Rightarrow> r
           | c # r' \<Rightarrow>
               if c = CHR '',''
               then (case drop_digits12 r' of None \<Rightarrow> r | Some r'' \<Rightarrow> r'')
               else r))"

lemma length_drop_digits12: "drop_digits12 s = Some r \<Longrightarrow> length r < length s"
  by (induction s rule: drop_digits12.induct) (auto split: if_splits)

lemma length_drop_color_args [termination_simp]: "length (drop_color_args s) \<le> length s"
  by (auto simp: drop_color_args_def split: option.splits list.splits
      dest!: length_drop_digits12)

text \<open>\<^verbatim>\<open>re.sub(r'\x03(\d{1,2}(,\d{1,2})?)?', '', text)\<close>: matches are taken left to right.\<close>

function sub_color :: "string \<Rightarrow> string" where
  "sub_color [] = []"
| "sub_color (c # s) =
     (if c = ETX then sub_color (drop_color_args s) else c # sub_color s)"
  by pat_completeness auto
termination
  by (relation "measure length") (auto simp: less_Suc_eq_le length_drop_color_args)

text \<open>The formatting toggles of \<^verbatim>\<open>[\x02\x0f\x16\x1d\x1f\x07]\<close>.\<close>

definition is_toggle :: "char \<Rightarrow> bool" where
  "is_toggle c \<longleftrightarrow> c \<in> set [CHR 0x02, CHR 0x0F, CHR 0x16, CHR 0x1D, CHR 0x1F, CHR 0x07]"

definition sub_toggles :: "string \<Rightarrow> string" where
  "sub_toggles s = filter (\<lambda>c. \<not> is_toggle c) s"

definition strip_mirc_colors :: "string \<Rightarrow> string" where
  "strip_mirc_colors text = sub_toggles (sub_color text)"

section \<open>Integers and calendar time\<close>

datatype py_error = ValueError | OverflowError | OSError

text \<open>
  \<^verbatim>\<open>int(s)\<close> on a string: surrounding whitespace is skipped, one sign is allowed, and
  the digits may be grouped by single underscores. Anything else is a \<open>ValueError\<close>, and
  so is a literal of more than 4300 digits (the interpreter's default limit).
\<close>

definition is_int_space :: "char \<Rightarrow> bool" where
  "is_int_space c \<longleftrightarrow> c \<in> set [CHR 0x09, CHR 0x0A, CHR 0x0B, CHR 0x0C, CHR 0x0D,
      CHR 0x20, CHR 0x85, CHR 0xA0]"

definition strip_int_space :: "string \<Rightarrow> string" where
  "strip_int_space s = rev (dropWhile is_int_space (rev (dropWhile is_int_space s)))"

fun digits_ok :: "string \<Rightarrow> bool" where
  "digits_ok [] = False"
| "digits_ok [c] = is_digit c"
| "digits_ok (c # d # s) =
     (is_digit c \<and> (if d = CHR ''_'' then digits_ok s else digits_ok (d # s)))"

definition digit_val :: "char \<Rightarrow> int" where
  "digit_val c = int (ord c) - 48"

definition digits_value :: "string \<Rightarrow> int" where
  "digits_value ds = foldl (\<lambda>a c. 10 * a + digit_val c) 0 ds"

definition max_str_digits :: nat where
  "max_str_digits = 4300"

definition py_int :: "string \<Rightarrow> py_error + int" where
  "py_int s =
     (let t = strip_int_space s;
          neg = (t \<noteq> [] \<and> hd t = CHR ''-'');
          body = (if t \<noteq> [] \<and> (hd t = CHR ''-'' \<or> hd t = CHR ''+'') then tl t else t);
          ds = filter is_digit body
      in if \<not> digits_ok body then Inl ValueError
         else if max_str_digits < length ds then Inl ValueError
         else Inr (if neg then - digits_value ds else digits_value ds))"

text \<open>
  A calendar time, as \<^verbatim>\<open>datetime\<close> holds it. The date arithmetic is the proleptic
  Gregorian calendar of the \<^verbatim>\<open>datetime\<close> module: \<open>ord2ymd\<close> and \<open>ymd2ord\<close> follow
  \<^verbatim>\<open>_ord2ymd\<close> and \<^verbatim>\<open>_ymd2ord\<close>, where day 1 is 1 January of year 1.
\<close>

record datetime =
  dt_year :: int
  dt_month :: int
  dt_day :: int
  dt_hour :: int
  dt_minute :: int
  dt_second :: int

definition DAYS_IN_MONTH :: "int list" where
  "DAYS_IN_MONTH = [-1, 31, 28, 31, 30, 31, 30, 31, 31, 30, 31, 30, 31]"

definition DAYS_BEFORE_MONTH :: "int list" where
  "DAYS_BEFORE_MONTH = [-1, 0, 31, 59, 90, 120, 151, 181, 212, 243, 273, 304, 334]"

definition is_leap :: "int \<Rightarrow> bool" where
  "is_leap y \<longleftrightarrow> y mod 4 = 0 \<and> (y mod 100 \<noteq> 0 \<or> y mod 400 = 0)"

definition days_before_year :: "int \<Rightarrow> int" where
  "days_before_year y = (y - 1) * 365 + (y - 1) div 4 - (y - 1) div 100 + (y - 1) div 400"

definition days_in_month :: "int \<Rightarrow> int \<Rightarrow> int" where
  "days_in_month y m = (if m = 2 \<and> is_leap y then 29 else DAYS_IN_MONTH ! nat m)"

definition days_before_month :: "int \<Rightarrow> int \<Rightarrow> int" where
  "days_before_month y m = DAYS_BEFORE_MONTH ! nat m + (if 2 < m \<and> is_leap y then 1 else 0)"

definition ymd2ord :: "int \<Rightarrow> int \<Rightarrow> int \<Rightarrow> int" where
  "ymd2ord y m d = days_before_year y + days_before_month y m + d"

definition ord2ymd :: "int \<Rightarrow> int \<times> int \<times> int" where
  "ord2ymd n =
     (let n0 = n - 1;
          n400 = n0 div 146097; na = n0 mod 146097;
          n100 = na div 36524; nb = na mod 36524;
          n4 = nb div 1461; nc = nb mod 1461;
          n1 = nc div 365; nd = nc mod 365;
          y = n400 * 400 + 1 + n100 * 100 + n4 * 4 + n1
      in if n1 = 4 \<or> n100 = 4 then (y - 1, 12, 31)
         else
           let leapyear = (n1 = 3 \<and> (n4 \<noteq> 24 \<or> n100 = 3));
               m = (nd + 50) div 32;
               preceding = DAYS_BEFORE_MONTH ! nat m + (if 2 < m \<and> leapyear then 1 else 0)
           in if nd < preceding
              then (y, m - 1,
                    nd - (preceding
                          - (DAYS_IN_MONTH ! nat (m - 1)
                             + (if m - 1 = 2 \<and> leapyear then 1 else 0))) + 1)
              else (y, m, nd - preceding + 1))"

text \<open>
  \<^verbatim>\<open>datetime.fromtimestamp(ts, tz=timezone.utc)\<close> for an integer \<open>ts\<close>. A value that
  does not fit the platform's 64-bit \<^verbatim>\<open>time_t\<close> is an \<open>OverflowError\<close>, one whose year
  the C library cannot hold is an \<open>OSError\<close>, and any other instant outside the years
  1 to 9999 is a \<open>ValueError\<close>.
\<close>

definition MIN_TS :: int where "MIN_TS = - 62135596800"
definition MAX_TS :: int where "MAX_TS = 253402300799"

definition fromtimestamp_utc :: "int \<Rightarrow> py_error + datetime" where
  "fromtimestamp_utc ts =
     (if ts < - (2 ^ 63) \<or> 2 ^ 63 \<le> ts then Inl OverflowError
      else if ts < - 67768040609740800 \<or> 67768036191676799 < ts then Inl OSError
      else if ts < MIN_TS \<or> MAX_TS < ts then Inl ValueError
      else
        let days = ts div 86400; secs = ts mod 86400;
            (y, m, d) = ord2ymd (days + 719163)
        in Inr \<lparr>dt_year = y, dt_month = m, dt_day = d,
                 dt_hour = secs div 3600, dt_minute = secs mod 3600 div 60,
                 dt_second = secs mod 60\<rparr>)"

text \<open>
  \<^verbatim>\<open>dt.strftime('%Y-%m-%d %H:%M:%S')\<close>. The C library prints the year \<^verbatim>\<open>%Y\<close> as a
  plain decimal number, without zero-fill, so a year below 1000 has fewer than four
  digits; the other fields are zero-filled to two digits.
\<close>

definition digit_char :: "int \<Rightarrow> char" where
  "digit_char d = ''0123456789'' ! nat d"

fun show_nat :: "nat \<Rightarrow> string" where
  "show_nat n =
     (if n < 10 then [digit_char (int n)]
      else show_nat (n div 10) @ [digit_char (int (n mod 10))])"

declare show_nat.simps [simp del]

definition dec2 :: "int \<Rightarrow> string" where
  "dec2 n = [digit_char (n div 10 mod 10), digit_char (n mod 10)]"

definition strftime :: "datetime \<Rightarrow> string" where
  "strftime dt = show_nat (nat (dt_year dt)) @ ''-'' @ dec2 (dt_month dt) @ ''-''
     @ dec2 (dt_day dt) @ '' '' @ dec2 (dt_hour dt) @ '':'' @ dec2 (dt_minute dt) @ '':''
     @ dec2 (dt_second dt)"

section \<open>Classifying a cleaned message\<close>

text \<open>
  The rules of \<^verbatim>\<open>classify_message\<close> are anchored regular expressions. In them
  \<^verbatim>\<open>.\<close> matches every character but the newline, and \<^verbatim>\<open>$\<close> matches at the end
  of the text or just before a newline that ends it. \<open>dot_star_end\<close> is \<^verbatim>\<open>(.*)$\<close> and
  \<open>dot_plus_end\<close> is \<^verbatim>\<open>(.+)$\<close>, each giving the text of its group.
\<close>

definition dot_star_end :: "string \<Rightarrow> string option" where
  "dot_star_end s =
     (let b = takeWhile (\<lambda>c. c \<noteq> NL) s; r = dropWhile (\<lambda>c. c \<noteq> NL) s
      in if r = [] \<or> r = [NL] then Some b else None)"

definition dot_plus_end :: "string \<Rightarrow> string option" where
  "dot_plus_end s =
     (case dot_star_end s of None \<Rightarrow> None | Some b \<Rightarrow> if b = [] then None else Some b)"

definition strip_prefix :: "string \<Rightarrow> string \<Rightarrow> string option" where
  "strip_prefix p s = (if startswith s p then Some (drop (length p) s) else None)"

text \<open>
  \<^verbatim>\<open>^O([^C]+)C\t...$\<close> for an opening character \<open>O\<close> and a closing character \<open>C\<close>:
  the greedy class takes every character up to the first \<open>C\<close>, and no shorter choice
  can be followed by \<open>C\<close>. The result is the nick and the payload.
\<close>

definition match_bracket ::
  "char \<Rightarrow> char \<Rightarrow> (string \<Rightarrow> string option) \<Rightarrow> string \<Rightarrow> (string \<times> string) option" where
  "match_bracket opn cls payload text =
     (case text of
        [] \<Rightarrow> None
      | c # r \<Rightarrow>
          if c \<noteq> opn then None
          else
            let nick = takeWhile (\<lambda>x. x \<noteq> cls) r; r' = dropWhile (\<lambda>x. x \<noteq> cls) r
            in if nick = [] then None
               else (case strip_prefix [cls, TAB] r' of
                       None \<Rightarrow> None
                     | Some p \<Rightarrow> map_option (Pair nick) (payload p)))"

text \<open>\<^verbatim>\<open>^LIT\t(.+)$\<close> for a literal marker.\<close>

definition match_literal :: "string \<Rightarrow> string \<Rightarrow> string option" where
  "match_literal lit text =
     (case strip_prefix (lit @ [TAB]) text of None \<Rightarrow> None | Some p \<Rightarrow> dot_plus_end p)"

text \<open>
  \<^verbatim>\<open>^\s*(\S+)\s*>>\t(.+)$\<close>. After the leading whitespace the greedy \<^verbatim>\<open>\S+\<close> first
  takes the whole run of non-space characters, which must then be followed by
  whitespace, \<^verbatim>\<open>>>\<close> and a tab. When that fails the only other way to match is for the
  run itself to end in \<^verbatim>\<open>>>\<close> with a tab right after it, the nick being the run
  without those two characters.
\<close>

definition match_query :: "string \<Rightarrow> (string \<times> string) option" where
  "match_query text =
     (let t1 = dropWhile is_space text;
          run = takeWhile (\<lambda>c. \<not> is_space c) t1;
          rest = dropWhile (\<lambda>c. \<not> is_space c) t1;
          first = (case strip_prefix [CHR ''>'', CHR ''>'', TAB] (dropWhile is_space rest) of
                     None \<Rightarrow> None | Some p \<Rightarrow> dot_plus_end p);
          second = (if 3 \<le> length run \<and> drop (length run - 2) run = ''>>''
                    then (case strip_prefix [TAB] rest of
                            None \<Rightarrow> None | Some p \<Rightarrow> dot_plus_end p)
                    else None)
      in if run = [] then None
         else (case first of
                 Some msg \<Rightarrow> Some (run, msg)
               | None \<Rightarrow>
                   (case second of
                      Some msg \<Rightarrow> Some (take (length run - 2) run, msg)
                    | None \<Rightarrow> None)))"

text \<open>
  \<^verbatim>\<open>classify_message\<close>: the rules in the order of the source, the first match wins. Every
  branch returns a prefix, so the caller's test for a missing prefix never fires and the
  result is a plain pair.
\<close>

definition classify_message :: "string \<Rightarrow> string \<times> string" where
  "classify_message text =
     (case match_bracket (CHR ''<'') (CHR ''>'') dot_star_end text of
        Some (nick, msg) \<Rightarrow> (''<'' @ nick @ ''>'', msg)
      | None \<Rightarrow>
     (case match_literal ''-->'' text of
        Some msg \<Rightarrow> (''-->'', msg)
      | None \<Rightarrow>
     (case match_literal ''<--'' text of
        Some msg \<Rightarrow> (''<--'', msg)
      | None \<Rightarrow>
     (case match_literal ''---'' text of
        Some msg \<Rightarrow> (''--'', msg)
      | None \<Rightarrow>
     (case match_literal ''*'' text of
        Some msg \<Rightarrow> ('' *'', msg)
      | None \<Rightarrow>
     (case match_bracket (CHR ''-'') (CHR ''-'') dot_plus_end text of
        Some (nick, msg) \<Rightarrow> (''--'', ''-'' @ nick @ ''- '' @ msg)
      | None \<Rightarrow>
     (case match_literal ''-*status-'' text of
        Some msg \<Rightarrow> (''--'', ''-*status- '' @ msg)
      | None \<Rightarrow>
     (case match_bracket (CHR ''>'') (CHR ''<'') dot_plus_end text of
        Some (nick, msg) \<Rightarrow> (''--'', ''>'' @ nick @ ''< '' @ msg)
      | None \<Rightarrow>
     (case match_query text of
        Some (nick, msg) \<Rightarrow> (''<'' @ nick @ ''>'', msg)
      | None \<Rightarrow>
     (if TAB \<notin> set text then (''--'', text) else (''--'', text)))))))))))"

section \<open>Parsing one HexChat line\<close>

text \<open>The control characters a line may contain, as \<^verbatim>\<open>allowed_control\<close> lists them.\<close>

definition allowed_control :: "nat list" where
  "allowed_control = map ord [CHR 0x03, CHR 0x02, CHR 0x0F, CHR 0x16, CHR 0x1D, CHR 0x1F,
      CHR 0x07, CHR 0x09, CHR 0x0A, CHR 0x0D]"

definition is_binary :: "char \<Rightarrow> bool" where
  "is_binary c \<longleftrightarrow> ord c < 32 \<and> ord c \<notin> set allowed_control"

text \<open>
  \<^verbatim>\<open>parse_hexchat_line\<close>. \<open>Inr None\<close> is the return of \<^verbatim>\<open>None\<close>, \<open>Inr (Some r)\<close> the
  return of the tuple \<open>r\<close>, and \<open>Inl e\<close> an exception that leaves the function. Only the
  conversion of the timestamp field is inside a \<^verbatim>\<open>try\<close>, and it catches \<open>ValueError\<close>.
\<close>

definition parse_hexchat_line ::
  "string \<Rightarrow> py_error + (int \<times> string \<times> string \<times> string) option" where
  "parse_hexchat_line line0 =
     (let line = rstrip_nl line0
      in if \<not> startswith line ''T '' then Inr None
         else if list_ex is_binary line then Inr None
         else
           let parts = split_sep (CHR '' '') 2 line
           in if length parts < 3 then Inr None
              else
                (case py_int (parts ! 1) of
                   Inl e \<Rightarrow> if e = ValueError then Inr None else Inl e
                 | Inr ts \<Rightarrow>
                     let raw = parts ! 2;
                         clean = strip_mirc_colors raw
                     in (case fromtimestamp_utc ts of
                           Inl e \<Rightarrow> Inl e
                         | Inr dt \<Rightarrow>
                             let dt_str = strftime dt;
                                 (prefix, message) = classify_message clean
                             in Inr (Some (ts, dt_str, prefix, message)))))"

section \<open>Parsing one WeeChat line\<close>

text \<open>\<^verbatim>\<open>s.endswith(p)\<close>.\<close>

definition endswith :: "string \<Rightarrow> string \<Rightarrow> bool" where
  "endswith s p \<longleftrightarrow> length p \<le> length s \<and> drop (length s - length p) s = p"

definition hexchat_to_weechat_filename :: "string \<Rightarrow> string" where
  "hexchat_to_weechat_filename hexchat_name =
     (let base = (if endswith hexchat_name ''.txt''
                  then take (length hexchat_name - 4) hexchat_name else hexchat_name)
      in base @ ''.log'')"

text \<open>
  The pattern \<^verbatim>\<open>^(\d{4}-\d{2}-\d{2} \d{2}:\d{2}:\d{2})\t\<close> as a list of twenty character
  tests; \<open>match_time\<close> gives the text of its group.
\<close>

definition time_shape :: "(char \<Rightarrow> bool) list" where
  "time_shape =
     [is_digit, is_digit, is_digit, is_digit, (=) (CHR ''-''), is_digit, is_digit,
      (=) (CHR ''-''), is_digit, is_digit, (=) (CHR '' ''), is_digit, is_digit,
      (=) (CHR '':''), is_digit, is_digit, (=) (CHR '':''), is_digit, is_digit, (=) TAB]"

definition match_time :: "string \<Rightarrow> string option" where
  "match_time line =
     (if list_all2 (\<lambda>p c. p c) time_shape (take 20 line) then Some (take 19 line) else None)"

text \<open>
  \<^verbatim>\<open>datetime.strptime(s, '%Y-%m-%d %H:%M:%S')\<close> on a string that \<open>match_time\<close> has
  returned. The directives accept months 01 to 12, days 01 to 31, hours 00 to 23, minutes
  00 to 59 and seconds 00 to 61; building the \<^verbatim>\<open>datetime\<close> then refuses year 0, a day
  the month does not have and a second above 59. Every refusal is a \<open>ValueError\<close>.
\<close>

definition strptime :: "string \<Rightarrow> py_error + datetime" where
  "strptime s =
     (let y = digits_value (take 4 s);
          m = digits_value (take 2 (drop 5 s));
          d = digits_value (take 2 (drop 8 s));
          hh = digits_value (take 2 (drop 11 s));
          mm = digits_value (take 2 (drop 14 s));
          ss = digits_value (take 2 (drop 17 s))
      in if m < 1 \<or> 12 < m \<or> d < 1 \<or> 31 < d \<or> 23 < hh \<or> 59 < mm \<or> 61 < ss
         then Inl ValueError
         else if y < 1 \<or> days_in_month y m < d \<or> 59 < ss then Inl ValueError
         else Inr \<lparr>dt_year = y, dt_month = m, dt_day = d,
                  dt_hour = hh, dt_minute = mm, dt_second = ss\<rparr>)"

text \<open>
  \<^verbatim>\<open>int(dt.replace(tzinfo=timezone.utc).timestamp())\<close>: the seconds from the epoch to
  the calendar time read as UTC. The value is a whole number below \<open>2 ^ 53\<close> in size, so
  the floating-point step of the source loses nothing.
\<close>

definition utc_timestamp :: "datetime \<Rightarrow> int" where
  "utc_timestamp dt =
     (ymd2ord (dt_year dt) (dt_month dt) (dt_day dt) - 719163) * 86400
     + dt_hour dt * 3600 + dt_minute dt * 60 + dt_second dt"

definition parse_weechat_line :: "string \<Rightarrow> py_error + (int \<times> string) option" where
  "parse_weechat_line line0 =
     (let line = rstrip_nl line0
      in if line = [] then Inr None
         else
           (case match_time line of
              None \<Rightarrow> Inr None
            | Some dt_str \<Rightarrow>
                (case strptime dt_str of
                   Inl e \<Rightarrow> if e = ValueError then Inr None else Inl e
                 | Inr dt \<Rightarrow> Inr (Some (utc_timestamp dt, line)))))"

section \<open>Files and the merge\<close>

text \<open>
  The file system is a map from path to the decoded text of a file, together with the
  list of accesses made so far. Decoding (with replacement of undecodable bytes) has
  already happened in this model.
\<close>

datatype fs_event = Exists string | Read string | Write string

record fs =
  files :: "string \<rightharpoonup> string"
  trace :: "fs_event list"

definition HEXCHAT_DIR :: string where
  "HEXCHAT_DIR = ''/home/fred/project/conversion/hexchat_efnet''"

definition WEECHAT_DIR :: string where
  "WEECHAT_DIR = ''/home/fred/project/conversion/weechat_efnet''"

definition SUBDIRS :: "string list" where
  "SUBDIRS = [''1'', ''2'', ''3'', ''4'']"

text \<open>\<^verbatim>\<open>dir / name\<close> for a plain file or directory name.\<close>

definition path_join :: "string \<Rightarrow> string \<Rightarrow> string" where
  "path_join d n = d @ ''/'' @ n"

definition log_event :: "fs_event \<Rightarrow> fs \<Rightarrow> fs" where
  "log_event ev s = s\<lparr>trace := trace s @ [ev]\<rparr>"

text \<open>
  Reading a text file line by line: with universal newlines a carriage return, alone or
  before a newline, reads as one newline, and every line keeps its newline; only the
  last line of a file may lack one.
\<close>

fun translate_newlines :: "string \<Rightarrow> string" where
  "translate_newlines [] = []"
| "translate_newlines [c] = [if c = CR then NL else c]"
| "translate_newlines (c # d # s) =
     (if c = CR \<and> d = NL then NL # translate_newlines s
      else (if c = CR then NL else c) # translate_newlines (d # s))"

fun keepends :: "string \<Rightarrow> string list" where
  "keepends [] = []"
| "keepends (c # s) =
     (if c = NL then [NL] # keepends s
      else (case keepends s of [] \<Rightarrow> [[c]] | l # ls \<Rightarrow> (c # l) # ls))"

definition file_lines :: "string \<Rightarrow> string list" where
  "file_lines content = keepends (translate_newlines content)"

type_synonym entry = "int \<times> string"

text \<open>
  The loop over the lines of one HexChat file; the state is \<^verbatim>\<open>entries\<close> and
  \<^verbatim>\<open>hex_count\<close>. An exception of \<open>parse_hexchat_line\<close> ends the loop.
\<close>

fun hexchat_loop :: "string list \<Rightarrow> entry list \<times> nat \<Rightarrow> py_error + (entry list \<times> nat)" where
  "hexchat_loop [] st = Inr st"
| "hexchat_loop (line # ls) (entries, hex_count) =
     (case parse_hexchat_line line of
        Inl e \<Rightarrow> Inl e
      | Inr None \<Rightarrow> hexchat_loop ls (entries, hex_count)
      | Inr (Some (ts, dt_str, prefix, message)) \<Rightarrow>
          hexchat_loop ls
            (entries @ [(ts, dt_str @ [TAB] @ prefix @ [TAB] @ message)], hex_count + 1))"

text \<open>The loop over \<^verbatim>\<open>SUBDIRS\<close>.\<close>

fun subdirs_loop ::
  "string \<Rightarrow> string list \<Rightarrow> entry list \<times> nat \<Rightarrow> fs
   \<Rightarrow> (py_error + (entry list \<times> nat)) \<times> fs" where
  "subdirs_loop base [] st s = (Inr st, s)"
| "subdirs_loop base (subdir # ds) st s =
     (let hexpath = path_join (path_join HEXCHAT_DIR subdir) base;
          s1 = log_event (Exists hexpath) s
      in case files s hexpath of
           None \<Rightarrow> subdirs_loop base ds st s1
         | Some content \<Rightarrow>
             let s2 = log_event (Read hexpath) s1
             in (case hexchat_loop (file_lines content) st of
                   Inl e \<Rightarrow> (Inl e, s2)
                 | Inr st' \<Rightarrow> subdirs_loop base ds st' s2))"

text \<open>The loop over the lines of the existing WeeChat file.\<close>

fun weechat_loop :: "string list \<Rightarrow> entry list \<times> nat \<Rightarrow> py_error + (entry list \<times> nat)" where
  "weechat_loop [] st = Inr st"
| "weechat_loop (line # ls) (entries, weechat_count) =
     (case parse_weechat_line line of
        Inl e \<Rightarrow> Inl e
      | Inr None \<Rightarrow> weechat_loop ls (entries, weechat_count)
      | Inr (Some result) \<Rightarrow> weechat_loop ls (entries @ [result], weechat_count + 1))"

text \<open>
  The deduplication loop: \<open>prev\<close> starts as \<^verbatim>\<open>None\<close>, and an entry is appended when
  it differs from \<open>prev\<close>.
\<close>

fun dedup_loop :: "entry list \<Rightarrow> entry option \<Rightarrow> entry list \<Rightarrow> entry list" where
  "dedup_loop [] prev deduped = deduped"
| "dedup_loop (e # es) prev deduped =
     dedup_loop es (Some e) (if Some e \<noteq> prev then deduped @ [e] else deduped)"

definition dedup :: "entry list \<Rightarrow> entry list" where
  "dedup entries = dedup_loop entries None []"

text \<open>\<^verbatim>\<open>entries.sort(key=lambda x: x[0])\<close>: the list sort of Python is stable.\<close>

definition sort_entries :: "entry list \<Rightarrow> entry list" where
  "sort_entries entries = sort_key fst entries"

text \<open>What is written: every line followed by a newline.\<close>

definition serialize :: "entry list \<Rightarrow> string" where
  "serialize deduped = concat (map (\<lambda>(_, line). line @ [NL]) deduped)"

definition process_file :: "string \<Rightarrow> fs \<Rightarrow> (py_error + (nat \<times> nat \<times> nat)) \<times> fs" where
  "process_file hexchat_basename s =
     (let weechat_name = hexchat_to_weechat_filename hexchat_basename;
          weechat_path = path_join WEECHAT_DIR weechat_name
      in case subdirs_loop hexchat_basename SUBDIRS ([], 0) s of
           (Inl e, s1) \<Rightarrow> (Inl e, s1)
         | (Inr (entries, hex_count), s1) \<Rightarrow>
             if hex_count = 0 then (Inr (0, 0, 0), s1)
             else
               let s2 = log_event (Exists weechat_path) s1;
                   (r, s3) =
                     (case files s2 weechat_path of
                        None \<Rightarrow> (Inr (entries, 0), s2)
                      | Some content \<Rightarrow>
                          (weechat_loop (file_lines content) (entries, 0),
                           log_event (Read weechat_path) s2))
               in (case r of
                     Inl e \<Rightarrow> (Inl e, s3)
                   | Inr (entries', weechat_count) \<Rightarrow>
                       let deduped = dedup (sort_entries entries');
                           s4 = log_event (Write weechat_path)
                                  (s3\<lparr>files := (files s3)(weechat_path \<mapsto> serialize deduped)\<rparr>)
                       in (Inr (hex_count, weechat_count, length deduped), s4)))"

section \<open>Scenarios and the wording of the specification\<close>

text \<open>
  The end-to-end scenario of the specification: one HexChat file in the first
  subdirectory holding one line, and no WeeChat file.
\<close>

definition scenario_fs :: fs where
  "scenario_fs =
     \<lparr>files = [path_join (path_join HEXCHAT_DIR ''1'') ''chan.txt''
                 \<mapsto> ''T 1700000000 <alice>'' @ [TAB] @ ''Hello'' @ [ETX] @ ''(4world'' @ [NL]],
      trace = []\<rparr>"

text \<open>
  A logical file whose only HexChat input holds no convertible line, next to an existing
  WeeChat log that has no final newline.
\<close>

definition quiet_fs :: fs where
  "quiet_fs =
     \<lparr>files = [path_join (path_join HEXCHAT_DIR ''2'') ''chan.txt''
                 \<mapsto> ''**** BEGIN LOGGING'' @ [NL] @ ''T x <alice>'' @ [TAB] @ ''Hello'' @ [NL],
               path_join WEECHAT_DIR ''chan.log''
                 \<mapsto> ''2023-11-14 22:13:21'' @ [TAB] @ ''<bob>'' @ [TAB] @ ''Hi''],
      trace = []\<rparr>"




text \<open>A WeeChat line, without a line terminator.\<close>

definition bob_line :: string where
  "bob_line = ''2023-11-14 22:13:21'' @ [TAB] @ ''<bob>'' @ [TAB] @ ''Hi''"

text \<open>
  A text that the notice rule \<^verbatim>\<open>-nick-\<close> takes for a nick, since it holds no dash; it
  holds a tab.
\<close>

definition tab_nick :: string where
  "tab_nick = ''a >>'' @ [TAB] @ ''b''"

text \<open>
  Deduplication in the words of the specification: walk the sequence once and append a
  record unless its line is the line of the last record of the output.
\<close>

fun dedup_by_line :: "entry list \<Rightarrow> entry list \<Rightarrow> entry list" where
  "dedup_by_line [] out = out"
| "dedup_by_line (e # es) out =
     dedup_by_line es (if out \<noteq> [] \<and> snd (last out) = snd e then out else out @ [e])"

text \<open>
  The second end-to-end scenario of the specification: the same HexChat line in two
  subdirectories, and a WeeChat log with a later line.
\<close>

definition merge_fs :: fs where
  "merge_fs =
     \<lparr>files = [path_join (path_join HEXCHAT_DIR ''1'') ''chan.txt''
                 \<mapsto> ''T 1700000000 <alice>'' @ [TAB] @ ''Hello'' @ [NL],
               path_join (path_join HEXCHAT_DIR ''3'') ''chan.txt''
                 \<mapsto> ''T 1700000000 <alice>'' @ [TAB] @ ''Hello'' @ [NL],
               path_join WEECHAT_DIR ''chan.log''
                 \<mapsto> ''2023-11-14 22:13:21'' @ [TAB] @ ''<bob>'' @ [TAB] @ ''Hi'' @ [NL]],
      trace = []\<rparr>"

text \<open>
  The month and day of \<open>ord2ymd\<close>, its last step taken alone: from the year, the day
  within the year (counted from 0) and whether the year is a leap year.
\<close>

definition month_day :: "int \<Rightarrow> int \<Rightarrow> bool \<Rightarrow> int \<times> int \<times> int" where
  "month_day y nd leapyear =
     (let m = (nd + 50) div 32;
          preceding = DAYS_BEFORE_MONTH ! nat m + (if 2 < m \<and> leapyear then 1 else 0)
      in if nd < preceding
         then (y, m - 1,
               nd - (preceding
                     - (DAYS_IN_MONTH ! nat (m - 1)
                        + (if m - 1 = 2 \<and> leapyear then 1 else 0))) + 1)
         else (y, m, nd - preceding + 1))"

text \<open>The fields of a calendar time that \<^verbatim>\<open>datetime\<close> accepts.\<close>

definition valid_datetime :: "datetime \<Rightarrow> bool" where
  "valid_datetime dt \<longleftrightarrow>
     1 \<le> dt_year dt \<and> dt_year dt \<le> 9999 \<and> 1 \<le> dt_month dt \<and> dt_month dt \<le> 12
     \<and> 1 \<le> dt_day dt \<and> dt_day dt \<le> days_in_month (dt_year dt) (dt_month dt)
     \<and> 0 \<le> dt_hour dt \<and> dt_hour dt \<le> 23 \<and> 0 \<le> dt_minute dt \<and> dt_minute dt \<le> 59
     \<and> 0 \<le> dt_second dt \<and> dt_second dt \<le> 59"

text \<open>
  The timestamp that a line spells out: the text before the first tab is read as a year
  of any number of digits, a dash, and month, day, hour, minute and second of two digits
  each, and taken as a time in UTC.
\<close>

definition stamp :: "string \<Rightarrow> int" where
  "stamp line =
     (let h = takeWhile (\<lambda>c. c \<noteq> TAB) line;
          ys = takeWhile (\<lambda>c. c \<noteq> CHR ''-'') h;
          r = drop (length ys + 1) h
      in utc_timestamp
           \<lparr>dt_year = digits_value ys, dt_month = digits_value (take 2 r),
            dt_day = digits_value (take 2 (drop 3 r)),
            dt_hour = digits_value (take 2 (drop 6 r)),
            dt_minute = digits_value (take 2 (drop 9 r)),
            dt_second = digits_value (take 2 (drop 12 r))\<rparr>)"

text \<open>
  The combined entry sequence in the words of the specification: the newly converted
  source records, subdirectory by subdirectory and line by line, followed by the
  records of the pre-existing destination file, line by line.
\<close>

definition hexchat_entry :: "string \<Rightarrow> entry option" where
  "hexchat_entry line =
     (case parse_hexchat_line line of
        Inr (Some (ts, dt_str, prefix, message)) \<Rightarrow>
          Some (ts, dt_str @ [TAB] @ prefix @ [TAB] @ message)
      | _ \<Rightarrow> None)"

definition weechat_entry :: "string \<Rightarrow> entry option" where
  "weechat_entry line = (case parse_weechat_line line of Inr (Some r) \<Rightarrow> Some r | _ \<Rightarrow> None)"

definition subdir_entries :: "string \<Rightarrow> fs \<Rightarrow> string \<Rightarrow> entry list" where
  "subdir_entries base s subdir =
     (case files s (path_join (path_join HEXCHAT_DIR subdir) base) of
        None \<Rightarrow> []
      | Some content \<Rightarrow> List.map_filter hexchat_entry (file_lines content))"

definition converted_entries :: "string \<Rightarrow> fs \<Rightarrow> entry list" where
  "converted_entries base s = concat (map (subdir_entries base s) SUBDIRS)"

definition existing_entries :: "string \<Rightarrow> fs \<Rightarrow> entry list" where
  "existing_entries base s =
     (case files s (path_join WEECHAT_DIR (hexchat_to_weechat_filename base)) of
        None \<Rightarrow> []
      | Some content \<Rightarrow> List.map_filter weechat_entry (file_lines content))"

text \<open>
  A HexChat file whose lines are out of order, one of them in the same second as the
  line of the existing WeeChat log.
\<close>

definition tie_fs :: fs where
  "tie_fs =
     \<lparr>files = [path_join (path_join HEXCHAT_DIR ''2'') ''chan.txt''
                 \<mapsto> ''T 1700000002 <alice>'' @ [TAB] @ ''later'' @ [NL]
                    @ ''T 1700000001 <alice>'' @ [TAB] @ ''Hello'' @ [NL],
               path_join WEECHAT_DIR ''chan.log''
                 \<mapsto> ''2023-11-14 22:13:21'' @ [TAB] @ ''<bob>'' @ [TAB] @ ''Hi'' @ [NL]],
      trace = []\<rparr>"

section \<open>Properties of the stripping\<close>

lemma set_drop_digits12: "drop_digits12 s = Some r \<Longrightarrow> set r \<subseteq> set s"
  by (induction s rule: drop_digits12.induct) (auto split: if_splits)

lemma set_drop_color_args: "set (drop_color_args s) \<subseteq> set s"
proof -
  have "\<And>r. drop_digits12 s = Some r \<Longrightarrow> set r \<subseteq> set s"
    by (rule set_drop_digits12)
  moreover have "set r'' \<subseteq> set s"
    if "drop_digits12 s = Some (c # r')" "drop_digits12 r' = Some r''" for c r' r''
  proof -
    have "set (c # r') \<subseteq> set s" "set r'' \<subseteq> set r'"
      using that by (simp_all only: set_drop_digits12)
    then show ?thesis by auto
  qed
  ultimately show ?thesis
    by (auto simp: drop_color_args_def split: option.splits list.splits)
qed

lemma set_sub_color: "set (sub_color s) \<subseteq> set s"
proof (induction s rule: sub_color.induct)
  case 1
  show ?case by simp
next
  case (2 c s)
  then show ?case using set_drop_color_args [of s] by auto
qed

lemma ETX_notin_sub_color: "ETX \<notin> set (sub_color s)"
  by (induction s rule: sub_color.induct) auto

lemma sub_color_id: "ETX \<notin> set s \<Longrightarrow> sub_color s = s"
  by (induction s) auto

lemma sub_toggles_idem: "sub_toggles (sub_toggles s) = sub_toggles s"
  by (simp add: sub_toggles_def)

lemma ETX_notin_strip: "ETX \<notin> set (strip_mirc_colors s)"
  using ETX_notin_sub_color [of s] by (auto simp: strip_mirc_colors_def sub_toggles_def)

text \<open>
  Claim C9. Stripping is idempotent, and in a stripped string neither substitution finds
  anything left to remove: the colour substitution and the toggle substitution each leave
  it as it is.
\<close>

theorem strip_mirc_colors_idempotent:
  "strip_mirc_colors (strip_mirc_colors s) = strip_mirc_colors s
   \<and> sub_color (strip_mirc_colors s) = strip_mirc_colors s
   \<and> sub_toggles (strip_mirc_colors s) = strip_mirc_colors s"
proof -
  have c: "sub_color (strip_mirc_colors s) = strip_mirc_colors s"
    by (rule sub_color_id) (rule ETX_notin_strip)
  have t: "sub_toggles (strip_mirc_colors s) = strip_mirc_colors s"
    by (simp add: strip_mirc_colors_def sub_toggles_idem)
  have "strip_mirc_colors (strip_mirc_colors s) = sub_toggles (sub_color (strip_mirc_colors s))"
    by (simp add: strip_mirc_colors_def)
  with c t show ?thesis by simp
qed

section \<open>Lines that are rejected or that raise\<close>

lemma is_binary_iff:
  "is_binary c \<longleftrightarrow> ord c < 32 \<and> c \<notin> {CHR 0x02, CHR 0x03, CHR 0x07, CHR 0x0F, CHR 0x16,
     CHR 0x1D, CHR 0x1F, TAB, NL, CR}"
proof -
  have inj: "ord a = ord b \<longleftrightarrow> a = b" for a b
    using inj_of_char [where ?'a = nat] by (auto simp: ord_def inj_def)
  show ?thesis
    by (auto simp: is_binary_def allowed_control_def inj TAB_def NL_def CR_def)
qed

text \<open>
  Claim C6. A line that begins with the marker \<^verbatim>\<open>T \<close> and, once its trailing newlines
  and carriage returns are removed, holds a character below 32 outside the allowed set
  is not classifiable, whatever the rest of the line is.
\<close>

theorem binary_line_not_classifiable:
  assumes "startswith line ''T ''"
    and "c \<in> set (rstrip_nl line)"
    and "ord c < 32"
    and "c \<notin> {CHR 0x02, CHR 0x03, CHR 0x07, CHR 0x0F, CHR 0x16, CHR 0x1D, CHR 0x1F, TAB, NL, CR}"
  shows "parse_hexchat_line line = Inr None"
proof -
  have "is_binary c" using assms(3,4) by (simp add: is_binary_iff)
  with assms(2) have "list_ex is_binary (rstrip_nl line)"
    by (auto simp: list_ex_iff)
  then show ?thesis by (simp add: parse_hexchat_line_def Let_def)
qed

text \<open>
  The same line with and without the byte 0x01: with it the line is dropped, without it
  the line is a channel message.
\<close>

theorem binary_line_not_classifiable_witness:
  "startswith (''T 1700000000 <a>'' @ [TAB] @ ''x'' @ [CHR 0x01] @ ''y'' @ [NL]) ''T ''
   \<and> parse_hexchat_line (''T 1700000000 <a>'' @ [TAB] @ ''x'' @ [CHR 0x01] @ ''y'' @ [NL]) = Inr None
   \<and> parse_hexchat_line (''T 1700000000 <a>'' @ [TAB] @ ''xy'' @ [NL])
       = Inr (Some (1700000000, ''2023-11-14 22:13:20'', ''<a>'', ''xy''))"
proof -
  have 1: "startswith (''T 1700000000 <a>'' @ [TAB] @ ''x'' @ [CHR 0x01] @ ''y'' @ [NL]) ''T ''"
    by (simp add: startswith_def)
  have 2: "CHR 0x01 \<in> set (rstrip_nl (''T 1700000000 <a>'' @ [TAB] @ ''x'' @ [CHR 0x01] @ ''y'' @ [NL]))"
    by (simp add: rstrip_nl_def NL_def CR_def TAB_def)
  have 3: "ord (CHR 0x01) < 32" by (simp add: ord_def)
  have 4: "CHR 0x01 \<notin> {CHR 0x02, CHR 0x03, CHR 0x07, CHR 0x0F, CHR 0x16, CHR 0x1D, CHR 0x1F, TAB, NL, CR}"
    by (simp add: NL_def CR_def TAB_def)
  have 5: "parse_hexchat_line (''T 1700000000 <a>'' @ [TAB] @ ''xy'' @ [NL])
       = Inr (Some (1700000000, ''2023-11-14 22:13:20'', ''<a>'', ''xy''))"
    by code_simp
  show ?thesis using binary_line_not_classifiable [OF 1 2 3 4] 1 5 by simp
qed

text \<open>
  The only exception that leaves \<open>parse_hexchat_line\<close> comes from the conversion of the
  timestamp to a calendar time: the timestamp field then is an integer outside the
  years 1 to 9999.
\<close>

lemma py_int_error: "py_int s = Inl e \<Longrightarrow> e = ValueError"
  by (auto simp: py_int_def Let_def split: if_splits)

lemma fromtimestamp_utc_error:
  "fromtimestamp_utc ts = Inl e \<Longrightarrow> ts < MIN_TS \<or> MAX_TS < ts"
  by (auto simp: fromtimestamp_utc_def Let_def MIN_TS_def MAX_TS_def split: if_splits prod.splits)

lemma parse_hexchat_line_error:
  assumes "parse_hexchat_line line = Inl e"
  shows "\<exists>ts. py_int (split_sep (CHR '' '') 2 (rstrip_nl line) ! 1) = Inr ts
     \<and> (ts < MIN_TS \<or> MAX_TS < ts)"
proof (cases "py_int (split_sep (CHR '' '') 2 (rstrip_nl line) ! 1)")
  case (Inl err)
  with py_int_error [OF this] assms show ?thesis
    by (auto simp: parse_hexchat_line_def Let_def split: if_splits)
next
  case (Inr ts)
  with assms have "\<exists>err. fromtimestamp_utc ts = Inl err"
    by (auto simp: parse_hexchat_line_def Let_def split: if_splits sum.splits prod.splits)
  with Inr fromtimestamp_utc_error show ?thesis by blast
qed

text \<open>
  Claim C1. The claim is that \<^verbatim>\<open>parse_hexchat_line\<close> never raises. The conversion of
  the timestamp to a calendar time is outside the \<^verbatim>\<open>try\<close>, so a well-formed line whose
  integer lies outside the years 1 to 9999 leaves the function with an exception: a
  \<open>ValueError\<close> for the first second of the year 10000, an \<open>OverflowError\<close> for \<open>10 ^ 20\<close>.
\<close>

theorem parse_hexchat_line_raises:
  "parse_hexchat_line ''T 253402300800 hello'' = Inl ValueError
   \<and> parse_hexchat_line ''T 100000000000000000000 hello'' = Inl OverflowError"
  by code_simp

section \<open>The end-to-end scenario\<close>

text \<open>
  Claim C3, as the specification states it: the scenario writes the single line
  \<^verbatim>\<open>2023-11-14 22:13:20\t<alice>\tHelloworld\<close>. It does not.
\<close>

theorem scenario_counterexample:
  "files (snd (process_file ''chan.txt'' scenario_fs)) (path_join WEECHAT_DIR ''chan.log'')
   \<noteq> Some (''2023-11-14 22:13:20'' @ [TAB] @ ''<alice>'' @ [TAB] @ ''Helloworld'' @ [NL])"
  by code_simp

text \<open>
  Claim C3, amended. The colour pattern takes digits only right after the byte 0x03;
  here a parenthesis follows, so the byte alone is removed and \<^verbatim>\<open>(4\<close> stays. The
  scenario writes exactly one line, \<^verbatim>\<open>2023-11-14 22:13:20\t<alice>\tHello(4world\<close>,
  with its newline, and reports one converted line.
\<close>

theorem scenario_output:
  "process_file ''chan.txt'' scenario_fs
     = (Inr (1, 0, 1), snd (process_file ''chan.txt'' scenario_fs))
   \<and> files (snd (process_file ''chan.txt'' scenario_fs)) (path_join WEECHAT_DIR ''chan.log'')
     = Some (''2023-11-14 22:13:20'' @ [TAB] @ ''<alice>'' @ [TAB] @ ''Hello(4world'' @ [NL])
   \<and> strip_mirc_colors (''Hello'' @ [ETX] @ ''(4world'') = ''Hello(4world''"
proof -
  have "fst (process_file ''chan.txt'' scenario_fs) = Inr (1, 0, 1)"
    by code_simp
  then have "process_file ''chan.txt'' scenario_fs
     = (Inr (1, 0, 1), snd (process_file ''chan.txt'' scenario_fs))"
    by (metis prod.collapse)
  moreover have "files (snd (process_file ''chan.txt'' scenario_fs)) (path_join WEECHAT_DIR ''chan.log'')
     = Some (''2023-11-14 22:13:20'' @ [TAB] @ ''<alice>'' @ [TAB] @ ''Hello(4world'' @ [NL])"
    by code_simp
  moreover have "strip_mirc_colors (''Hello'' @ [ETX] @ ''(4world'') = ''Hello(4world''"
    by code_simp
  ultimately show ?thesis by simp
qed

section \<open>Order within a filtered list\<close>

lemma filter_append_split:
  "filter P xs = ys @ zs \<Longrightarrow> \<exists>us vs. xs = us @ vs \<and> filter P us = ys \<and> filter P vs = zs"
proof (induction xs arbitrary: ys)
  case Nil
  then show ?case by simp
next
  case (Cons x xs)
  show ?case
  proof (cases "P x")
    case False
    with Cons.prems have "filter P xs = ys @ zs" by simp
    from Cons.IH [OF this] obtain us vs where "xs = us @ vs" "filter P us = ys" "filter P vs = zs"
      by blast
    with False have "x # xs = (x # us) @ vs \<and> filter P (x # us) = ys \<and> filter P vs = zs" by simp
    then show ?thesis by blast
  next
    case True
    show ?thesis
    proof (cases ys)
      case Nil
      with Cons.prems have "x # xs = [] @ (x # xs) \<and> filter P [] = ys \<and> filter P (x # xs) = zs"
        by simp
      then show ?thesis by blast
    next
      case (Cons y ys')
      with True Cons.prems have "filter P xs = ys' @ zs" and "x = y" by simp_all
      from Cons.IH [OF this(1)] obtain us vs where "xs = us @ vs" "filter P us = ys'" "filter P vs = zs"
        by blast
      with True \<open>x = y\<close> Cons have "x # xs = (x # us) @ vs \<and> filter P (x # us) = ys \<and> filter P vs = zs"
        by simp
      then show ?thesis by blast
    qed
  qed
qed

lemma append_order:
  assumes "h \<in> set us" "w \<in> set vs"
  shows "\<exists>i j. i < j \<and> j < length (us @ vs) \<and> (us @ vs) ! i = h \<and> (us @ vs) ! j = w"
proof -
  from assms obtain i where i: "i < length us" "us ! i = h" by (auto simp: in_set_conv_nth)
  from assms obtain j where j: "j < length vs" "vs ! j = w" by (auto simp: in_set_conv_nth)
  have "i < length us + j \<and> length us + j < length (us @ vs)
        \<and> (us @ vs) ! i = h \<and> (us @ vs) ! (length us + j) = w"
    using i j by (simp add: nth_append)
  then show ?thesis by blast
qed

section \<open>No HexChat record, no write\<close>

lemma hexpath_neq_weechat_path:
  "path_join (path_join HEXCHAT_DIR subdir) base \<noteq> path_join WEECHAT_DIR name"
  by (simp add: path_join_def HEXCHAT_DIR_def WEECHAT_DIR_def)

lemma hexchat_loop_no_record:
  assumes "\<forall>line \<in> set ls. \<forall>r. parse_hexchat_line line \<noteq> Inr (Some r)"
  shows "hexchat_loop ls st = Inr st \<or> (\<exists>e. hexchat_loop ls st = Inl e)"
  using assms
proof (induction ls)
  case Nil
  then show ?case by simp
next
  case (Cons l ls)
  obtain entries hex_count where st: "st = (entries, hex_count)" by (cases st)
  show ?case
  proof (cases "parse_hexchat_line l")
    case (Inl e)
    then show ?thesis by (simp add: st)
  next
    case (Inr r)
    with Cons.prems have "r = None" by (cases r) auto
    with Inr Cons show ?thesis by (simp add: st)
  qed
qed

lemma subdirs_loop_files: "files (snd (subdirs_loop base ds st s)) = files s"
  by (induction ds arbitrary: st s)
    (auto simp: Let_def log_event_def split: option.splits sum.splits)

lemma subdirs_loop_trace:
  "\<exists>evs. trace (snd (subdirs_loop base ds st s)) = trace s @ evs
     \<and> (\<forall>ev \<in> set evs. \<exists>subdir \<in> set ds.
            ev = Exists (path_join (path_join HEXCHAT_DIR subdir) base)
          \<or> ev = Read (path_join (path_join HEXCHAT_DIR subdir) base))"
proof (induction ds arbitrary: st s)
  case Nil
  then show ?case by simp
next
  case (Cons d ds)
  let ?p = "path_join (path_join HEXCHAT_DIR d) base"
  let ?s1 = "log_event (Exists ?p) s"
  let ?s2 = "log_event (Read ?p) ?s1"
  show ?case
  proof (cases "files s ?p")
    case None
    from Cons.IH [of st ?s1] obtain evs where
      e: "trace (snd (subdirs_loop base ds st ?s1)) = trace ?s1 @ evs"
      "\<forall>ev \<in> set evs. \<exists>subdir \<in> set ds.
            ev = Exists (path_join (path_join HEXCHAT_DIR subdir) base)
          \<or> ev = Read (path_join (path_join HEXCHAT_DIR subdir) base)" by blast
    have "trace (snd (subdirs_loop base (d # ds) st s)) = trace s @ (Exists ?p # evs)"
      using None e(1) by (simp add: Let_def log_event_def)
    moreover have "\<forall>ev \<in> set (Exists ?p # evs). \<exists>subdir \<in> set (d # ds).
            ev = Exists (path_join (path_join HEXCHAT_DIR subdir) base)
          \<or> ev = Read (path_join (path_join HEXCHAT_DIR subdir) base)"
      using e(2) by auto
    ultimately show ?thesis by blast
  next
    case (Some content)
    show ?thesis
    proof (cases "hexchat_loop (file_lines content) st")
      case (Inl err)
      have "trace (snd (subdirs_loop base (d # ds) st s)) = trace s @ [Exists ?p, Read ?p]"
        using Some Inl by (simp add: Let_def log_event_def)
      moreover have "\<forall>ev \<in> set [Exists ?p, Read ?p]. \<exists>subdir \<in> set (d # ds).
            ev = Exists (path_join (path_join HEXCHAT_DIR subdir) base)
          \<or> ev = Read (path_join (path_join HEXCHAT_DIR subdir) base)"
        by auto
      ultimately show ?thesis by blast
    next
      case (Inr st')
      from Cons.IH [of st' ?s2] obtain evs where
        e: "trace (snd (subdirs_loop base ds st' ?s2)) = trace ?s2 @ evs"
        "\<forall>ev \<in> set evs. \<exists>subdir \<in> set ds.
            ev = Exists (path_join (path_join HEXCHAT_DIR subdir) base)
          \<or> ev = Read (path_join (path_join HEXCHAT_DIR subdir) base)" by blast
      have "trace (snd (subdirs_loop base (d # ds) st s)) = trace s @ (Exists ?p # Read ?p # evs)"
        using Some Inr e(1) by (simp add: Let_def log_event_def)
      moreover have "\<forall>ev \<in> set (Exists ?p # Read ?p # evs). \<exists>subdir \<in> set (d # ds).
            ev = Exists (path_join (path_join HEXCHAT_DIR subdir) base)
          \<or> ev = Read (path_join (path_join HEXCHAT_DIR subdir) base)"
        using e(2) by auto
      ultimately show ?thesis by blast
    qed
  qed
qed

lemma subdirs_loop_no_record:
  assumes "\<forall>subdir \<in> set ds. \<forall>content.
      files s (path_join (path_join HEXCHAT_DIR subdir) base) = Some content \<longrightarrow>
      (\<forall>line \<in> set (file_lines content). \<forall>r. parse_hexchat_line line \<noteq> Inr (Some r))"
  shows "fst (subdirs_loop base ds st s) = Inr st \<or> (\<exists>e. fst (subdirs_loop base ds st s) = Inl e)"
  using assms
proof (induction ds arbitrary: s)
  case Nil
  then show ?case by simp
next
  case (Cons d ds)
  let ?p = "path_join (path_join HEXCHAT_DIR d) base"
  let ?s1 = "log_event (Exists ?p) s"
  let ?s2 = "log_event (Read ?p) ?s1"
  have f1: "files ?s1 = files s" and f2: "files ?s2 = files s" by (simp_all add: log_event_def)
  have ih: "fst (subdirs_loop base ds st s') = Inr st \<or> (\<exists>e. fst (subdirs_loop base ds st s') = Inl e)"
    if "files s' = files s" for s'
    using Cons.IH [of s'] Cons.prems that by simp
  show ?case
  proof (cases "files s ?p")
    case None
    then show ?thesis using ih [OF f1] by (simp add: Let_def)
  next
    case (Some content)
    with Cons.prems have "\<forall>line \<in> set (file_lines content). \<forall>r. parse_hexchat_line line \<noteq> Inr (Some r)"
      by simp
    from hexchat_loop_no_record [OF this, of st]
    show ?thesis
    proof
      assume "hexchat_loop (file_lines content) st = Inr st"
      then show ?thesis using Some ih [OF f2] by (simp add: Let_def)
    next
      assume "\<exists>e. hexchat_loop (file_lines content) st = Inl e"
      then show ?thesis using Some by (auto simp: Let_def)
    qed
  qed
qed

text \<open>
  Claim C2. When no line of any HexChat input of a logical file yields a record,
  \<^verbatim>\<open>process_file\<close> leaves every file as it was, and none of its accesses is to the
  WeeChat file: it neither tests, reads nor writes it. It returns the triple of zeros,
  or leaves with the exception of a line that raised.
\<close>

theorem no_records_no_write:
  assumes "\<forall>subdir \<in> set SUBDIRS. \<forall>content.
      files s (path_join (path_join HEXCHAT_DIR subdir) base) = Some content \<longrightarrow>
      (\<forall>line \<in> set (file_lines content). \<forall>r. parse_hexchat_line line \<noteq> Inr (Some r))"
  shows "files (snd (process_file base s)) = files s
    \<and> (\<exists>evs. trace (snd (process_file base s)) = trace s @ evs
          \<and> Exists (path_join WEECHAT_DIR (hexchat_to_weechat_filename base)) \<notin> set evs
          \<and> Read (path_join WEECHAT_DIR (hexchat_to_weechat_filename base)) \<notin> set evs
          \<and> Write (path_join WEECHAT_DIR (hexchat_to_weechat_filename base)) \<notin> set evs)
    \<and> (fst (process_file base s) = Inr (0, 0, 0) \<or> (\<exists>e. fst (process_file base s) = Inl e))"
proof -
  let ?r = "subdirs_loop base SUBDIRS ([], 0) s"
  let ?wp = "path_join WEECHAT_DIR (hexchat_to_weechat_filename base)"
  from subdirs_loop_no_record [OF assms, of "([], 0)"]
  have res: "fst ?r = Inr ([], 0) \<or> (\<exists>e. fst ?r = Inl e)" .
  have p: "snd (process_file base s) = snd ?r
      \<and> (fst (process_file base s) = Inr (0, 0, 0) \<or> (\<exists>e. fst (process_file base s) = Inl e))"
    using res by (cases ?r) (auto simp: process_file_def Let_def)
  then have snd_eq: "snd (process_file base s) = snd ?r" by simp
  have files: "files (snd (process_file base s)) = files s"
    by (simp add: snd_eq subdirs_loop_files)
  from subdirs_loop_trace [of base SUBDIRS "([], 0)" s] obtain evs where
    e: "trace (snd ?r) = trace s @ evs"
    "\<forall>ev \<in> set evs. \<exists>subdir \<in> set SUBDIRS.
        ev = Exists (path_join (path_join HEXCHAT_DIR subdir) base)
      \<or> ev = Read (path_join (path_join HEXCHAT_DIR subdir) base)" by blast
  have "ev \<noteq> Exists ?wp \<and> ev \<noteq> Read ?wp \<and> ev \<noteq> Write ?wp" if "ev \<in> set evs" for ev
  proof -
    from that e(2) obtain subdir where
      "ev = Exists (path_join (path_join HEXCHAT_DIR subdir) base)
       \<or> ev = Read (path_join (path_join HEXCHAT_DIR subdir) base)" by blast
    then show ?thesis
      using hexpath_neq_weechat_path [of subdir base "hexchat_to_weechat_filename base"] by auto
  qed
  then have "Exists ?wp \<notin> set evs \<and> Read ?wp \<notin> set evs \<and> Write ?wp \<notin> set evs"
    by blast
  with e(1) snd_eq files p show ?thesis by auto
qed

lemma quiet_fs_hyp:
  "\<forall>subdir \<in> set SUBDIRS. \<forall>content.
      files quiet_fs (path_join (path_join HEXCHAT_DIR subdir) ''chan.txt'') = Some content \<longrightarrow>
      (\<forall>line \<in> set (file_lines content). \<forall>r. parse_hexchat_line line \<noteq> Inr (Some r))"
proof -
  have l: "file_lines (''**** BEGIN LOGGING'' @ [NL] @ ''T x <alice>'' @ [TAB] @ ''Hello'' @ [NL])
      = [''**** BEGIN LOGGING'' @ [NL], ''T x <alice>'' @ [TAB] @ ''Hello'' @ [NL]]"
    by code_simp
  have 1: "parse_hexchat_line (''**** BEGIN LOGGING'' @ [NL]) = Inr None" by code_simp
  have 2: "parse_hexchat_line (''T x <alice>'' @ [TAB] @ ''Hello'' @ [NL]) = Inr None" by code_simp
  show ?thesis
    using l 1 2
    by (auto simp: quiet_fs_def SUBDIRS_def path_join_def HEXCHAT_DIR_def WEECHAT_DIR_def)
qed

theorem no_records_no_write_witness:
  "process_file ''chan.txt'' quiet_fs
     = (Inr (0, 0, 0), snd (process_file ''chan.txt'' quiet_fs))
   \<and> files (snd (process_file ''chan.txt'' quiet_fs)) (path_join WEECHAT_DIR ''chan.log'')
       = Some (''2023-11-14 22:13:21'' @ [TAB] @ ''<bob>'' @ [TAB] @ ''Hi'')
   \<and> files (snd (process_file ''chan.txt'' quiet_fs)) = files quiet_fs"
proof -
  have "fst (process_file ''chan.txt'' quiet_fs) = Inr (0, 0, 0)" by code_simp
  then have a: "process_file ''chan.txt'' quiet_fs
     = (Inr (0, 0, 0), snd (process_file ''chan.txt'' quiet_fs))"
    by (metis prod.collapse)
  have b: "files (snd (process_file ''chan.txt'' quiet_fs)) = files quiet_fs"
    using no_records_no_write [OF quiet_fs_hyp] by simp
  have c: "files quiet_fs (path_join WEECHAT_DIR ''chan.log'')
       = Some (''2023-11-14 22:13:21'' @ [TAB] @ ''<bob>'' @ [TAB] @ ''Hi'')"
    by (simp add: quiet_fs_def path_join_def HEXCHAT_DIR_def WEECHAT_DIR_def)
  from a b c show ?thesis by simp
qed

section \<open>The split into marker, timestamp and remainder\<close>








section \<open>Round trip of a WeeChat line\<close>

text \<open>
  Claim C8, as the specification states it: an accepted line, written back as its stored
  text and a newline, is the line as it was read. The last line of a file may have no
  newline; it is accepted, and what is written for it is one character longer.
\<close>

theorem roundtrip_counterexample:
  "bob_line \<in> set (file_lines bob_line)
   \<and> parse_weechat_line bob_line = Inr (Some (1700000001, bob_line))
   \<and> serialize [(1700000001, bob_line)] \<noteq> bob_line"
  by code_simp

lemma parse_weechat_line_stored:
  "parse_weechat_line line = Inr (Some (ts, stored)) \<Longrightarrow> stored = rstrip_nl line"
  by (auto simp: parse_weechat_line_def Let_def split: if_splits option.splits sum.splits)

lemma CR_notin_translate_newlines: "CR \<notin> set (translate_newlines s)"
  by (induction s rule: translate_newlines.induct) (auto simp: NL_def CR_def)

lemma keepends_line:
  "l \<in> set (keepends s) \<Longrightarrow> l \<noteq> [] \<and> NL \<notin> set (butlast l) \<and> set l \<subseteq> set s"
proof (induction s arbitrary: l)
  case Nil
  then show ?case by simp
next
  case (Cons c s)
  show ?case
  proof (cases "c = NL")
    case True
    with Cons show ?thesis by auto
  next
    case False
    show ?thesis
    proof (cases "keepends s")
      case Nil
      with False Cons.prems show ?thesis by simp
    next
      case (Cons k ks)
      with False Cons.prems have "l = c # k \<or> l \<in> set ks" by simp
      then show ?thesis
      proof
        assume l: "l = c # k"
        have "k \<in> set (keepends s)" using Cons by simp
        from Cons.IH [OF this] False l show ?thesis by auto
      next
        assume "l \<in> set ks"
        then have "l \<in> set (keepends s)" using Cons by simp
        from Cons.IH [OF this] show ?thesis by auto
      qed
    qed
  qed
qed

lemma file_line_shape:
  assumes "l \<in> set (file_lines content)"
  shows "l \<noteq> [] \<and> NL \<notin> set (butlast l) \<and> CR \<notin> set l"
proof -
  from assms have "l \<in> set (keepends (translate_newlines content))"
    by (simp add: file_lines_def)
  from keepends_line [OF this] CR_notin_translate_newlines [of content]
  show ?thesis by auto
qed

lemma dropWhile_none: "\<forall>x \<in> set xs. \<not> P x \<Longrightarrow> dropWhile P xs = xs"
  by (cases xs) auto

lemma rstrip_nl_file_line:
  assumes "l \<noteq> []" "NL \<notin> set (butlast l)" "CR \<notin> set l"
  shows "rstrip_nl l = (if last l = NL then butlast l else l)"
proof -
  from assms(1) obtain b x where l: "l = b @ [x]" by (cases l rule: rev_cases) auto
  have "\<forall>y \<in> set (rev b). \<not> (y = NL \<or> y = CR)"
    using assms(2,3) by (auto simp: l)
  then have keep: "dropWhile (\<lambda>c. c = NL \<or> c = CR) (rev b) = rev b"
    by (rule dropWhile_none)
  have "x \<noteq> CR" using assms(3) by (auto simp: l)
  then have "dropWhile (\<lambda>c. c = NL \<or> c = CR) (rev (b @ [x]))
      = (if x = NL then rev b else rev (b @ [x]))"
    using keep by simp
  then show ?thesis by (simp add: rstrip_nl_def l)
qed

text \<open>
  Claim C8, amended. For a line read from a file and accepted by \<^verbatim>\<open>parse_weechat_line\<close>,
  the stored text is the line without its line terminator, and what is written for the
  record is the line itself when it ends in a newline, and the line with a newline added
  when it is a last line without one.
\<close>

theorem weechat_roundtrip:
  assumes "line \<in> set (file_lines content)"
    and "parse_weechat_line line = Inr (Some (ts, stored))"
  shows "stored = rstrip_nl line
     \<and> serialize [(ts, stored)] = (if endswith line [NL] then line else line @ [NL])"
proof -
  from file_line_shape [OF assms(1)]
  have sh: "line \<noteq> []" "NL \<notin> set (butlast line)" "CR \<notin> set line" by simp_all
  have st: "stored = rstrip_nl line" by (rule parse_weechat_line_stored [OF assms(2)])
  have e: "endswith line [NL] \<longleftrightarrow> last line = NL"
    using sh(1) by (cases line rule: rev_cases) (auto simp: endswith_def)
  have "serialize [(ts, stored)] = rstrip_nl line @ [NL]"
    by (simp add: serialize_def st)
  also have "\<dots> = (if last line = NL then line else line @ [NL])"
    using append_butlast_last_id [OF sh(1)] by (auto simp: rstrip_nl_file_line [OF sh])
  finally show ?thesis using st e by simp
qed

theorem weechat_roundtrip_witness:
  "(bob_line @ [NL]) \<in> set (file_lines (bob_line @ [CR, NL] @ bob_line))
   \<and> parse_weechat_line (bob_line @ [NL]) = Inr (Some (1700000001, bob_line))
   \<and> serialize [(1700000001, bob_line)] = bob_line @ [NL]"
proof -
  have 1: "(bob_line @ [NL]) \<in> set (file_lines (bob_line @ [CR, NL] @ bob_line))" by code_simp
  have 2: "parse_weechat_line (bob_line @ [NL]) = Inr (Some (1700000001, bob_line))" by code_simp
  have 3: "endswith (bob_line @ [NL]) [NL]" by (simp add: endswith_def)
  from weechat_roundtrip [OF 1 2] 1 2 3 show ?thesis by simp
qed

section \<open>Markers with an empty payload\<close>

lemma single_tab:
  "TAB \<notin> set m \<Longrightarrow> m @ [TAB] = u @ TAB # p \<Longrightarrow> p = []"
proof (induction m arbitrary: u)
  case Nil
  then show ?case by (cases u) auto
next
  case (Cons a m)
  then show ?case by (cases u) auto
qed

lemma dot_plus_end_nonempty: "dot_plus_end p = Some msg \<Longrightarrow> p \<noteq> [] \<and> msg \<noteq> []"
  by (auto simp: dot_plus_end_def dot_star_end_def Let_def split: option.splits if_splits)

lemma strip_prefix_Some: "strip_prefix q s = Some p \<Longrightarrow> s = q @ p"
  by (auto simp: strip_prefix_def startswith_def split: if_splits)
    (metis append_take_drop_id)

lemma match_literal_Some:
  "match_literal lit text = Some msg \<Longrightarrow> \<exists>p. text = lit @ TAB # p \<and> dot_plus_end p = Some msg"
  by (auto simp: match_literal_def split: option.splits dest!: strip_prefix_Some)

lemma match_bracket_Some:
  assumes "match_bracket opn cls payload text = Some (nick, msg)"
  shows "\<exists>p. text = opn # nick @ cls # TAB # p \<and> payload p = Some msg
             \<and> nick \<noteq> [] \<and> cls \<notin> set nick"
proof -
  from assms obtain r where t: "text = opn # r"
    by (cases "text") (auto simp: match_bracket_def split: if_splits)
  let ?n = "takeWhile (\<lambda>x. x \<noteq> cls) r"
  let ?r = "dropWhile (\<lambda>x. x \<noteq> cls) r"
  from assms t have n: "?n \<noteq> []"
    by (auto simp: match_bracket_def Let_def split: if_splits)
  with assms t obtain p where p: "strip_prefix [cls, TAB] ?r = Some p"
    and m: "map_option (Pair ?n) (payload p) = Some (nick, msg)"
    by (auto simp: match_bracket_def Let_def split: if_splits option.splits)
  from m have nick: "nick = ?n" and pay: "payload p = Some msg" by auto
  from strip_prefix_Some [OF p] have "?r = cls # TAB # p" by simp
  then have "r = ?n @ cls # TAB # p" by (metis takeWhile_dropWhile_id)
  moreover have "cls \<notin> set ?n" by (auto dest: set_takeWhileD)
  ultimately show ?thesis using t nick pay n by auto
qed

lemma match_query_Some:
  assumes "match_query text = Some (nick, msg)"
  shows "\<exists>u p. text = u @ TAB # p \<and> dot_plus_end p = Some msg"
proof -
  let ?t1 = "dropWhile is_space text"
  let ?run = "takeWhile (\<lambda>c. \<not> is_space c) ?t1"
  let ?rest = "dropWhile (\<lambda>c. \<not> is_space c) ?t1"
  have tx: "text = takeWhile is_space text @ ?run @ ?rest" by simp
  from assms consider
    (a) p where "strip_prefix [CHR ''>'', CHR ''>'', TAB] (dropWhile is_space ?rest) = Some p"
      "dot_plus_end p = Some msg"
    | (b) p where "strip_prefix [TAB] ?rest = Some p" "dot_plus_end p = Some msg"
    by (auto simp: match_query_def Let_def split: if_splits option.splits)
  then show ?thesis
  proof cases
    case a
    from strip_prefix_Some [OF a(1)]
    have "dropWhile is_space ?rest = ''>>'' @ TAB # p" by simp
    then have "?rest = takeWhile is_space ?rest @ ''>>'' @ TAB # p"
      by (metis takeWhile_dropWhile_id)
    then have "text = (takeWhile is_space text @ ?run @ takeWhile is_space ?rest @ ''>>'') @ TAB # p"
      using tx by (metis append.assoc)
    with a(2) show ?thesis by blast
  next
    case b
    from strip_prefix_Some [OF b(1)] have "?rest = TAB # p" by simp
    then have "text = (takeWhile is_space text @ ?run) @ TAB # p"
      using tx by (metis append.assoc)
    with b(2) show ?thesis by blast
  qed
qed

lemma match_literal_marker: "TAB \<notin> set m \<Longrightarrow> match_literal lit (m @ [TAB]) = None"
proof (rule ccontr)
  assume m: "TAB \<notin> set m" and "match_literal lit (m @ [TAB]) \<noteq> None"
  then obtain msg where "match_literal lit (m @ [TAB]) = Some msg" by auto
  from match_literal_Some [OF this] obtain p where
    "m @ [TAB] = lit @ TAB # p" "dot_plus_end p = Some msg" by blast
  with single_tab [OF m] dot_plus_end_nonempty show False by blast
qed

lemma match_bracket_marker:
  "TAB \<notin> set m \<Longrightarrow> match_bracket opn cls dot_plus_end (m @ [TAB]) = None"
proof (rule ccontr)
  assume m: "TAB \<notin> set m" and "match_bracket opn cls dot_plus_end (m @ [TAB]) \<noteq> None"
  then obtain nick msg where "match_bracket opn cls dot_plus_end (m @ [TAB]) = Some (nick, msg)"
    by auto
  from match_bracket_Some [OF this] obtain p where
    "m @ [TAB] = (opn # nick @ [cls]) @ TAB # p" "dot_plus_end p = Some msg" by auto
  with single_tab [OF m] dot_plus_end_nonempty show False by blast
qed

lemma match_query_marker: "TAB \<notin> set m \<Longrightarrow> match_query (m @ [TAB]) = None"
proof (rule ccontr)
  assume m: "TAB \<notin> set m" and "match_query (m @ [TAB]) \<noteq> None"
  then obtain nick msg where "match_query (m @ [TAB]) = Some (nick, msg)" by auto
  from match_query_Some [OF this] obtain u p where
    "m @ [TAB] = u @ TAB # p" "dot_plus_end p = Some msg" by blast
  with single_tab [OF m] dot_plus_end_nonempty show False by blast
qed

lemma match_speaker_marker:
  assumes "TAB \<notin> set m"
    and "\<And>n. n \<noteq> [] \<Longrightarrow> CHR ''>'' \<notin> set n \<Longrightarrow> m \<noteq> CHR ''<'' # n @ ''>''"
  shows "match_bracket (CHR ''<'') (CHR ''>'') dot_star_end (m @ [TAB]) = None"
proof (rule ccontr)
  assume "match_bracket (CHR ''<'') (CHR ''>'') dot_star_end (m @ [TAB]) \<noteq> None"
  then obtain nick msg where
    "match_bracket (CHR ''<'') (CHR ''>'') dot_star_end (m @ [TAB]) = Some (nick, msg)" by auto
  from match_bracket_Some [OF this] obtain p where
    e: "m @ [TAB] = (CHR ''<'' # nick @ ''>'') @ TAB # p"
    and n: "nick \<noteq> []" "CHR ''>'' \<notin> set nick" by auto
  from single_tab [OF assms(1) e] have "p = []" .
  with e have "m = CHR ''<'' # nick @ ''>''" by simp
  with assms(2) [OF n] show False by simp
qed

lemma classify_marker_only:
  assumes "TAB \<notin> set m"
    and "\<And>n. n \<noteq> [] \<Longrightarrow> CHR ''>'' \<notin> set n \<Longrightarrow> m \<noteq> CHR ''<'' # n @ ''>''"
  shows "classify_message (m @ [TAB]) = (''--'', m @ [TAB])"
  using match_speaker_marker [OF assms] assms(1)
  by (simp add: classify_message_def match_literal_marker match_bracket_marker
      match_query_marker)

lemma classify_speaker_empty:
  assumes "nick \<noteq> []" and "CHR ''>'' \<notin> set nick"
  shows "classify_message (''<'' @ nick @ ''>'' @ [TAB]) = (''<'' @ nick @ ''>'', [])"
proof -
  have "takeWhile (\<lambda>x. x \<noteq> CHR ''>'') (nick @ [CHR ''>'', TAB]) = nick"
    using assms(2) by (induction nick) auto
  moreover have "dropWhile (\<lambda>x. x \<noteq> CHR ''>'') (nick @ [CHR ''>'', TAB]) = [CHR ''>'', TAB]"
    using assms(2) by (induction nick) auto
  ultimately have "match_bracket (CHR ''<'') (CHR ''>'') dot_star_end (''<'' @ nick @ ''>'' @ [TAB])
      = Some (nick, [])"
    using assms(1)
    by (simp add: match_bracket_def Let_def strip_prefix_def startswith_def dot_star_end_def)
  then show ?thesis by (simp add: classify_message_def)
qed

lemma not_speaker_query: "nick @ '' >>'' \<noteq> CHR ''<'' # n @ ''>''" if "CHR ''>'' \<notin> set n" "n \<noteq> []"
proof
  assume "nick @ '' >>'' = CHR ''<'' # n @ ''>''"
  then have "(nick @ '' >'') @ ''>'' = (CHR ''<'' # n) @ ''>''" by simp
  then have "nick @ '' >'' = CHR ''<'' # n" by (simp only: append_same_eq)
  then have "last (CHR ''<'' # n) = CHR ''>''" by (metis last_appendR last_ConsL last_ConsR list.distinct(1))
  with that show False by (metis last_ConsR last_in_set)
qed

text \<open>
  Claim C10, as stated: each marker other than \<^verbatim>\<open><nick>\<close>, followed by a tab and nothing
  else, falls through to the fallback. With a payload the notice rule accepts \<open>tab_nick\<close>
  as the nick of a \<^verbatim>\<open>-nick-\<close> marker; without a payload the same marker is taken by
  the query rule, which finds \<^verbatim>\<open>>>\<close> and a tab inside it, and the result is not the
  fallback.
\<close>

theorem marker_with_tab_counterexample:
  "tab_nick \<noteq> [] \<and> CHR ''-'' \<notin> set tab_nick
   \<and> classify_message (''-'' @ tab_nick @ ''-'' @ [TAB] @ ''hi'') = (''--'', ''-'' @ tab_nick @ ''- hi'')
   \<and> classify_message (''-'' @ tab_nick @ ''-'' @ [TAB]) = (''<-a>'', ''b-'' @ [TAB])
   \<and> classify_message (''-'' @ tab_nick @ ''-'' @ [TAB]) \<noteq> (''--'', ''-'' @ tab_nick @ ''-'' @ [TAB])"
  by code_simp

text \<open>
  Claim C10, amended. The speaker rule accepts an empty payload. Every other rule yields
  a payload that is not empty. A marker \<^verbatim>\<open>-->\<close>, \<^verbatim>\<open><--\<close>, \<^verbatim>\<open>---\<close>, \<^verbatim>\<open>*\<close>,
  \<^verbatim>\<open>-*status-\<close>, or \<^verbatim>\<open>-nick-\<close>, \<^verbatim>\<open>>nick<\<close>, \<^verbatim>\<open>nick >>\<close> with a nick that holds no
  tab, followed by a tab and nothing else, gets the prefix \<^verbatim>\<open>--\<close> and is kept whole,
  tab included, as the message.
\<close>

theorem classify_empty_payload:
  "(nick \<noteq> [] \<and> CHR ''>'' \<notin> set nick \<longrightarrow>
      classify_message (''<'' @ nick @ ''>'' @ [TAB]) = (''<'' @ nick @ ''>'', []))
   \<and> (\<forall>lit t msg. match_literal lit t = Some msg \<longrightarrow> msg \<noteq> [])
   \<and> (\<forall>opn cls t n msg. match_bracket opn cls dot_plus_end t = Some (n, msg) \<longrightarrow> msg \<noteq> [])
   \<and> (\<forall>t n msg. match_query t = Some (n, msg) \<longrightarrow> msg \<noteq> [])
   \<and> classify_message (''-->'' @ [TAB]) = (''--'', ''-->'' @ [TAB])
   \<and> classify_message (''<--'' @ [TAB]) = (''--'', ''<--'' @ [TAB])
   \<and> classify_message (''---'' @ [TAB]) = (''--'', ''---'' @ [TAB])
   \<and> classify_message (''*'' @ [TAB]) = (''--'', ''*'' @ [TAB])
   \<and> classify_message (''-*status-'' @ [TAB]) = (''--'', ''-*status-'' @ [TAB])
   \<and> (TAB \<notin> set nick \<longrightarrow>
        classify_message ((''-'' @ nick @ ''-'') @ [TAB]) = (''--'', (''-'' @ nick @ ''-'') @ [TAB])
      \<and> classify_message ((''>'' @ nick @ ''<'') @ [TAB]) = (''--'', (''>'' @ nick @ ''<'') @ [TAB])
      \<and> classify_message ((nick @ '' >>'') @ [TAB]) = (''--'', (nick @ '' >>'') @ [TAB]))"
proof -
  have sp: "nick \<noteq> [] \<and> CHR ''>'' \<notin> set nick \<longrightarrow>
      classify_message (''<'' @ nick @ ''>'' @ [TAB]) = (''<'' @ nick @ ''>'', [])"
    using classify_speaker_empty by blast
  have r1: "\<forall>lit t msg. match_literal lit t = Some msg \<longrightarrow> msg \<noteq> []"
    using match_literal_Some dot_plus_end_nonempty by blast
  have r2: "\<forall>opn cls t n msg. match_bracket opn cls dot_plus_end t = Some (n, msg) \<longrightarrow> msg \<noteq> []"
    using match_bracket_Some dot_plus_end_nonempty by blast
  have r3: "\<forall>t n msg. match_query t = Some (n, msg) \<longrightarrow> msg \<noteq> []"
    using match_query_Some dot_plus_end_nonempty by blast
  have l1: "classify_message (''-->'' @ [TAB]) = (''--'', ''-->'' @ [TAB])"
    by (rule classify_marker_only) (simp_all add: TAB_def)
  have l2: "classify_message (''<--'' @ [TAB]) = (''--'', ''<--'' @ [TAB])"
    by (rule classify_marker_only) (auto simp: TAB_def Cons_eq_append_conv)
  have l3: "classify_message (''---'' @ [TAB]) = (''--'', ''---'' @ [TAB])"
    by (rule classify_marker_only) (simp_all add: TAB_def)
  have l4: "classify_message (''*'' @ [TAB]) = (''--'', ''*'' @ [TAB])"
    by (rule classify_marker_only) (simp_all add: TAB_def)
  have l5: "classify_message (''-*status-'' @ [TAB]) = (''--'', ''-*status-'' @ [TAB])"
    by (rule classify_marker_only) (simp_all add: TAB_def)
  have n1: "classify_message ((''-'' @ nick @ ''-'') @ [TAB]) = (''--'', (''-'' @ nick @ ''-'') @ [TAB])"
    if "TAB \<notin> set nick"
    by (rule classify_marker_only) (use that in \<open>simp_all add: TAB_def\<close>)
  have n2: "classify_message ((''>'' @ nick @ ''<'') @ [TAB]) = (''--'', (''>'' @ nick @ ''<'') @ [TAB])"
    if "TAB \<notin> set nick"
    by (rule classify_marker_only) (use that in \<open>simp_all add: TAB_def\<close>)
  have n3: "classify_message ((nick @ '' >>'') @ [TAB]) = (''--'', (nick @ '' >>'') @ [TAB])"
    if "TAB \<notin> set nick"
  proof (rule classify_marker_only)
    show "TAB \<notin> set (nick @ '' >>'')" using that by (simp add: TAB_def)
    show "nick @ '' >>'' \<noteq> CHR ''<'' # n @ ''>''" if "n \<noteq> []" "CHR ''>'' \<notin> set n" for n
      using not_speaker_query [OF that(2,1)] .
  qed
  from sp r1 r2 r3 l1 l2 l3 l4 l5 n1 n2 n3 show ?thesis by blast
qed


theorem classify_empty_payload_witness:
  "classify_message (''<bob>'' @ [TAB]) = (''<bob>'', [])
   \<and> classify_message (''-bob-'' @ [TAB]) = (''--'', ''-bob-'' @ [TAB])
   \<and> classify_message (''>bob<'' @ [TAB]) = (''--'', ''>bob<'' @ [TAB])
   \<and> classify_message (''bob >>'' @ [TAB]) = (''--'', ''bob >>'' @ [TAB])
   \<and> classify_message (''-bob-'' @ [TAB] @ ''hi'') = (''--'', ''-bob- hi'')"
proof -
  have "classify_message (''-bob-'' @ [TAB] @ ''hi'') = (''--'', ''-bob- hi'')" by code_simp
  with classify_empty_payload [of "''bob''"] show ?thesis by (simp add: TAB_def)
qed

section \<open>The calendar: a date and its day number\<close>

lemma month_day_ok:
  assumes "0 \<le> nd" "nd \<le> 364" "month_day y' nd leap = (y, m, d)"
  shows "y = y' \<and> 1 \<le> m \<and> m \<le> 12 \<and> 1 \<le> d
    \<and> d \<le> (if m = 2 \<and> leap then 29 else DAYS_IN_MONTH ! nat m)
    \<and> DAYS_BEFORE_MONTH ! nat m + (if 2 < m \<and> leap then 1 else 0) + d = nd + 1"
proof -
  define k where "k = (nd + 50) div 32"
  have k: "32 * k \<le> nd + 50" "nd + 50 < 32 * k + 32" unfolding k_def by presburger+
  with assms(1,2) have "1 \<le> k" "k \<le> 12" by linarith+
  then have "k = 1 \<or> k = 2 \<or> k = 3 \<or> k = 4 \<or> k = 5 \<or> k = 6 \<or> k = 7 \<or> k = 8
      \<or> k = 9 \<or> k = 10 \<or> k = 11 \<or> k = 12" by presburger
  then show ?thesis
    using assms k unfolding month_day_def k_def [symmetric] Let_def
    by (elim disjE)
      (auto simp: DAYS_BEFORE_MONTH_def DAYS_IN_MONTH_def split: if_splits)
qed

lemma ord2ymd_ok:
  assumes n: "1 \<le> n" and r: "ord2ymd n = (y, m, d)"
  shows "1 \<le> y \<and> 1 \<le> m \<and> m \<le> 12 \<and> 1 \<le> d \<and> d \<le> days_in_month y m \<and> ymd2ord y m d = n"
proof -
  define q where "q = (n - 1) div 146097"
  define na where "na = (n - 1) mod 146097"
  define n100 where "n100 = na div 36524"
  define nb where "nb = na mod 36524"
  define n4 where "n4 = nb div 1461"
  define nc where "nc = nb mod 1461"
  define n1 where "n1 = nc div 365"
  define nd where "nd = nc mod 365"
  define Y where "Y = q * 400 + 1 + n100 * 100 + n4 * 4 + n1"
  define leapyear where "leapyear \<longleftrightarrow> n1 = 3 \<and> (n4 \<noteq> 24 \<or> n100 = 3)"
  have e0: "n - 1 = 146097 * q + na" "0 \<le> na" "na < 146097"
    unfolding q_def na_def by simp_all
  have e1: "na = 36524 * n100 + nb" "0 \<le> nb" "nb < 36524"
    unfolding n100_def nb_def by simp_all
  have e2: "nb = 1461 * n4 + nc" "0 \<le> nc" "nc < 1461"
    unfolding n4_def nc_def by simp_all
  have e3: "nc = 365 * n1 + nd" "0 \<le> nd" "nd < 365"
    unfolding n1_def nd_def by simp_all
  have q0: "0 \<le> q" using n e0 by linarith
  have b100: "0 \<le> n100" "n100 \<le> 4" using e0 e1 by linarith+
  have b4: "0 \<le> n4" "n4 \<le> 24" using e1 e2 by linarith+
  have b1: "0 \<le> n1" "n1 \<le> 4" using e2 e3 by linarith+
  have ymd: "ord2ymd n = (if n1 = 4 \<or> n100 = 4 then (Y - 1, 12, 31)
      else month_day Y nd leapyear)"
    unfolding ord2ymd_def month_day_def Let_def Y_def leapyear_def n1_def nd_def nc_def
      n4_def nb_def n100_def na_def q_def
    by (rule refl)
  show ?thesis
  proof (cases "n100 = 4")
    case True
    with e0 e1 e2 e3 b4 b1 have z: "nb = 0" "n4 = 0" "nc = 0" "n1 = 0" "nd = 0" by linarith+
    have Y: "Y - 1 = 400 * (q + 1)" by (simp add: Y_def True z)
    from ymd r True have res: "y = 400 * (q + 1)" "m = 12" "d = 31" by (simp_all add: Y)
    have d4: "(y - 1) div 4 = 100 * q + 99"
      by (rule int_div_pos_eq [where r = 3]) (simp_all add: res)
    have d100: "(y - 1) div 100 = 4 * q + 3"
      by (rule int_div_pos_eq [where r = 99]) (simp_all add: res)
    have d400: "(y - 1) div 400 = q"
      by (rule int_div_pos_eq [where r = 399]) (simp_all add: res)
    have leap: "is_leap y" by (simp add: is_leap_def res)
    have "ymd2ord y m d = n"
      using e0 e1 True z leap
      by (simp add: ymd2ord_def days_before_year_def days_before_month_def d4 d100 d400
          DAYS_BEFORE_MONTH_def res(2,3)) (simp add: res(1))
    moreover have "1 \<le> y" using q0 res by simp
    moreover have "d \<le> days_in_month y m"
      by (simp add: days_in_month_def res(2,3) DAYS_IN_MONTH_def)
    ultimately show ?thesis by (simp add: res(2,3))
  next
    case n100: False
    with b100 have b100': "n100 \<le> 3" by simp
    show ?thesis
    proof (cases "n1 = 4")
      case True
      with e2 e3 have nd0: "nd = 0" by linarith
      have n4': "n4 \<le> 23" using e1 e2 e3 True nd0 by linarith
      from ymd r True have res: "y = Y - 1" "m = 12" "d = 31" by simp_all
      have y: "y = 400 * q + 100 * n100 + 4 * n4 + 4" by (simp add: res Y_def True)
      have d4: "(y - 1) div 4 = 100 * q + 25 * n100 + n4"
        by (rule int_div_pos_eq [where r = 3]) (simp_all add: y)
      have d100: "(y - 1) div 100 = 4 * q + n100"
        by (rule int_div_pos_eq [where r = "4 * n4 + 3"]) (use b4 n4' in \<open>simp_all add: y\<close>)
      have d400: "(y - 1) div 400 = q"
        by (rule int_div_pos_eq [where r = "100 * n100 + 4 * n4 + 3"])
          (use b4 n4' b100 b100' in \<open>simp_all add: y\<close>)
      have m4: "y mod 4 = 0" by (simp add: y)
      have m100: "y mod 100 = 4 * n4 + 4"
        by (rule int_mod_pos_eq [where q = "4 * q + n100"]) (use b4 n4' in \<open>simp_all add: y\<close>)
      have leap: "is_leap y" using m4 m100 b4 by (simp add: is_leap_def)
      have "ymd2ord y m d = n"
        using e0 e1 e2 e3 True nd0 leap
        by (simp add: ymd2ord_def days_before_year_def days_before_month_def d4 d100 d400
            DAYS_BEFORE_MONTH_def res(2,3)) (simp add: y)
      moreover have "1 \<le> y" using q0 b100 b4 y by simp
      moreover have "d \<le> days_in_month y m"
        by (simp add: days_in_month_def res(2,3) DAYS_IN_MONTH_def)
      ultimately show ?thesis by (simp add: res(2,3))
    next
      case False
      with b1 have b1': "n1 \<le> 3" by simp
      have n4c: "n4 = 24 \<Longrightarrow> nc \<le> 1459" using e1 e2 by linarith
      from ymd r False n100 have md0: "month_day Y nd leapyear = (y, m, d)" by simp
      from month_day_ok [OF _ _ md0] e3
      have res: "y = Y" and md: "1 \<le> m" "m \<le> 12" "1 \<le> d"
        "d \<le> (if m = 2 \<and> leapyear then 29 else DAYS_IN_MONTH ! nat m)"
        "DAYS_BEFORE_MONTH ! nat m + (if 2 < m \<and> leapyear then 1 else 0) + d = nd + 1"
        by simp_all
      have y: "y = 400 * q + 100 * n100 + 4 * n4 + n1 + 1" by (simp add: res Y_def)
      have d4: "(y - 1) div 4 = 100 * q + 25 * n100 + n4"
        by (rule int_div_pos_eq [where r = n1]) (use b1 b1' in \<open>simp_all add: y\<close>)
      have d100: "(y - 1) div 100 = 4 * q + n100"
        by (rule int_div_pos_eq [where r = "4 * n4 + n1"]) (use b4 b1 b1' in \<open>simp_all add: y\<close>)
      have d400: "(y - 1) div 400 = q"
        by (rule int_div_pos_eq [where r = "100 * n100 + 4 * n4 + n1"])
          (use b4 b1 b1' b100 b100' in \<open>simp_all add: y\<close>)
      have m4: "y mod 4 = (if n1 = 3 then 0 else n1 + 1)"
      proof (cases "n1 = 3")
        case True
        then show ?thesis by (simp add: y)
      next
        case False
        have "y mod 4 = n1 + 1"
          by (rule int_mod_pos_eq [where q = "100 * q + 25 * n100 + n4"])
            (use b1 b1' False in \<open>simp_all add: y\<close>)
        with False show ?thesis by simp
      qed
      have m100: "y mod 100 = 0 \<longleftrightarrow> n4 = 24 \<and> n1 = 3"
      proof (cases "n4 = 24 \<and> n1 = 3")
        case True
        then show ?thesis by (simp add: y)
      next
        case False
        have "y mod 100 = 4 * n4 + n1 + 1"
          by (rule int_mod_pos_eq [where q = "4 * q + n100"])
            (use b4 b1 b1' False in \<open>auto simp: y\<close>)
        with False b4 b1 show ?thesis by auto
      qed
      have m400: "y mod 400 = 0 \<longleftrightarrow> n100 = 3 \<and> n4 = 24 \<and> n1 = 3"
      proof (cases "n100 = 3 \<and> n4 = 24 \<and> n1 = 3")
        case True
        then show ?thesis by (simp add: y)
      next
        case False
        have "y mod 400 = 100 * n100 + 4 * n4 + n1 + 1"
          by (rule int_mod_pos_eq [where q = q])
            (use b100 b100' b4 b1 b1' False in \<open>auto simp: y\<close>)
        with False b100 b4 b1 show ?thesis by auto
      qed
      have leap: "is_leap y = leapyear"
        using m4 m100 m400 b1 by (auto simp: is_leap_def leapyear_def)
      have dby: "days_before_year y = 146097 * q + 36524 * n100 + 1461 * n4 + 365 * n1"
        unfolding days_before_year_def d4 d100 d400 by (simp add: y)
      have dbm: "days_before_month y m + d = nd + 1"
        using md(5) by (simp add: days_before_month_def leap)
      have "ymd2ord y m d = n"
        unfolding ymd2ord_def using dby dbm e0 e1 e2 e3 by linarith
      moreover have "1 \<le> y" using q0 b100 b4 b1 y by simp
      moreover have "d \<le> days_in_month y m"
        using md(4) by (simp add: days_in_month_def leap)
      ultimately show ?thesis using md by simp
    qed
  qed
qed

lemma days_before_year_large: "10000 \<le> y \<Longrightarrow> 3652059 \<le> days_before_year y"
proof -
  assume y: "10000 \<le> y"
  define x where "x = y - 1"
  have a: "x - 3 \<le> 4 * (x div 4)" by presburger
  have b: "100 * (x div 100) \<le> x" by presburger
  have c: "x - 399 \<le> 400 * (x div 400)" by presburger
  have "days_before_year y = x * 365 + x div 4 - x div 100 + x div 400"
    by (simp add: days_before_year_def x_def)
  moreover have "9999 \<le> x" using y by (simp add: x_def)
  ultimately show ?thesis using a b c by linarith
qed

lemma DAYS_BEFORE_MONTH_nonneg: "1 \<le> m \<Longrightarrow> m \<le> 12 \<Longrightarrow> 0 \<le> DAYS_BEFORE_MONTH ! nat m"
proof -
  assume "1 \<le> m" "m \<le> 12"
  then have "m = 1 \<or> m = 2 \<or> m = 3 \<or> m = 4 \<or> m = 5 \<or> m = 6 \<or> m = 7 \<or> m = 8
      \<or> m = 9 \<or> m = 10 \<or> m = 11 \<or> m = 12" by presburger
  then show ?thesis by (elim disjE) (simp_all add: DAYS_BEFORE_MONTH_def)
qed

lemma ord2ymd_year_bound:
  assumes "1 \<le> n" "n \<le> 3652059" "ord2ymd n = (y, m, d)"
  shows "y \<le> 9999"
proof (rule ccontr)
  assume "\<not> y \<le> 9999"
  then have "3652059 \<le> days_before_year y" by (intro days_before_year_large) simp
  moreover from ord2ymd_ok [OF assms(1,3)]
  have ok: "1 \<le> m" "m \<le> 12" "1 \<le> d" "ymd2ord y m d = n" by simp_all
  moreover have "0 \<le> days_before_month y m"
    using DAYS_BEFORE_MONTH_nonneg [OF ok(1,2)] by (simp add: days_before_month_def)
  ultimately show False using assms(2) by (simp add: ymd2ord_def)
qed

lemma digit_char_ok:
  assumes "0 \<le> k" "k \<le> 9"
  shows "is_digit (digit_char k) \<and> digit_val (digit_char k) = k"
proof -
  from assms have "k = 0 \<or> k = 1 \<or> k = 2 \<or> k = 3 \<or> k = 4 \<or> k = 5 \<or> k = 6 \<or> k = 7
      \<or> k = 8 \<or> k = 9" by presburger
  then show ?thesis
    by (elim disjE) (simp_all add: digit_char_def is_digit_def digit_val_def ord_def)
qed

lemma digit_char_mod: "is_digit (digit_char (k mod 10)) \<and> digit_val (digit_char (k mod 10)) = k mod 10"
  by (rule digit_char_ok) simp_all

lemma digits_value_2: "digits_value [digit_char (a mod 10), digit_char (b mod 10)] = 10 * (a mod 10) + b mod 10"
  by (simp add: digits_value_def digit_char_mod)

lemma split2: "0 \<le> n \<Longrightarrow> n \<le> 99 \<Longrightarrow> 10 * (n div 10 mod 10) + n mod 10 = (n::int)"
proof -
  assume "0 \<le> n" "n \<le> 99"
  then have "0 \<le> n div 10" "n div 10 < 10" by simp_all
  then have "n div 10 mod 10 = n div 10" by simp
  then show ?thesis by simp
qed

lemma dec2_value: "0 \<le> n \<Longrightarrow> n \<le> 99 \<Longrightarrow> digits_value (dec2 n) = n"
  unfolding dec2_def digits_value_2 by (rule split2)

lemma fromtimestamp_utc_ok:
  assumes "fromtimestamp_utc ts = Inr dt"
  shows "valid_datetime dt \<and> utc_timestamp dt = ts"
proof -
  define days where "days = ts div 86400"
  define secs where "secs = ts mod 86400"
  from assms have range: "MIN_TS \<le> ts" "ts \<le> MAX_TS"
    by (auto simp: fromtimestamp_utc_def split: if_splits)
  have ts: "ts = 86400 * days + secs" and secs: "0 \<le> secs" "secs < 86400"
    unfolding days_def secs_def by simp_all
  have n: "1 \<le> days + 719163" "days + 719163 \<le> 3652059"
    using range ts secs by (simp_all add: MIN_TS_def MAX_TS_def)
  obtain y m d where ymd: "ord2ymd (days + 719163) = (y, m, d)" by (metis prod_cases3)
  from assms range ymd have dt: "dt = \<lparr>dt_year = y, dt_month = m, dt_day = d,
      dt_hour = secs div 3600, dt_minute = secs mod 3600 div 60, dt_second = secs mod 60\<rparr>"
    by (auto simp: fromtimestamp_utc_def Let_def days_def secs_def split: if_splits)
  from ord2ymd_ok [OF n(1) ymd] ord2ymd_year_bound [OF n ymd]
  have date: "1 \<le> y" "y \<le> 9999" "1 \<le> m" "m \<le> 12" "1 \<le> d" "d \<le> days_in_month y m"
    "ymd2ord y m d = days + 719163" by simp_all
  have h: "0 \<le> secs div 3600" "secs div 3600 \<le> 23" using secs by simp_all
  have mi: "0 \<le> secs mod 3600 div 60" "secs mod 3600 div 60 \<le> 59"
  proof -
    have "0 \<le> secs mod 3600" "secs mod 3600 < 3600" by simp_all
    then show "0 \<le> secs mod 3600 div 60" "secs mod 3600 div 60 \<le> 59" by simp_all
  qed
  have s: "0 \<le> secs mod 60" "secs mod 60 \<le> 59" by simp_all
  have tod: "secs div 3600 * 3600 + secs mod 3600 div 60 * 60 + secs mod 60 = secs"
  proof -
    have a: "secs = 3600 * (secs div 3600) + secs mod 3600" by simp
    have b: "secs mod 3600 = 60 * (secs mod 3600 div 60) + secs mod 3600 mod 60" by simp
    have c: "secs mod 3600 mod 60 = secs mod 60" by (simp add: mod_mod_cancel)
    from a b c show ?thesis by linarith
  qed
  have "utc_timestamp dt = ts"
    using tod date(7) ts by (simp add: utc_timestamp_def dt)
  moreover have "valid_datetime dt"
    using date h mi s by (simp add: valid_datetime_def dt)
  ultimately show ?thesis by simp
qed

section \<open>Printing a calendar time\<close>

text \<open>
  The last second of the year 999: the year is printed with three digits, so the line
  converted from this timestamp is not one that \<open>parse_weechat_line\<close> would accept.
\<close>

lemma year_below_1000: "parse_hexchat_line ''T -30610224001 x''
    = Inr (Some (- 30610224001, ''999-12-31 23:59:59'', ''--'', ''x''))"
  by code_simp

lemma show_nat_digits: "\<forall>c \<in> set (show_nat n). is_digit c"
proof (induction n rule: show_nat.induct)
  case (1 n)
  show ?case
  proof (cases "n < 10")
    case True
    then have "is_digit (digit_char (int n))" by (intro digit_char_ok [THEN conjunct1]) simp_all
    with True show ?thesis by (subst show_nat.simps) simp
  next
    case False
    have "is_digit (digit_char (int (n mod 10)))"
      by (intro digit_char_ok [THEN conjunct1]) simp_all
    with False 1 show ?thesis by (subst show_nat.simps) simp
  qed
qed

lemma digits_value_snoc: "digits_value (xs @ [c]) = 10 * digits_value xs + digit_val c"
  by (simp add: digits_value_def)

lemma digits_value_show_nat: "digits_value (show_nat n) = int n"
proof (induction n rule: show_nat.induct)
  case (1 n)
  show ?case
  proof (cases "n < 10")
    case True
    then have "digit_val (digit_char (int n)) = int n"
      by (intro digit_char_ok [THEN conjunct2]) simp_all
    with True show ?thesis by (subst show_nat.simps) (simp add: digits_value_def)
  next
    case False
    have "digit_val (digit_char (int (n mod 10))) = int (n mod 10)"
      by (intro digit_char_ok [THEN conjunct2]) simp_all
    moreover have "digits_value (show_nat (n div 10)) = int (n div 10)"
      using 1 False by simp
    moreover have "10 * int (n div 10) + int (n mod 10) = int n"
      by (metis mult_div_mod_eq of_nat_add of_nat_mult of_nat_numeral)
    ultimately show ?thesis using False
      by (subst show_nat.simps) (simp add: digits_value_snoc)
  qed
qed

lemma is_digit_plain: "is_digit c \<Longrightarrow> c \<noteq> TAB \<and> c \<noteq> CHR ''-''"
  by (auto simp: is_digit_def TAB_def)

lemma takeWhile_until:
  "\<forall>c \<in> set xs. P c \<Longrightarrow> \<not> P x \<Longrightarrow> takeWhile P (xs @ x # ys) = xs"
  by (induction xs) simp_all

section \<open>Every entry carries the timestamp of its line\<close>

lemma stamp_strftime:
  assumes "fromtimestamp_utc ts = Inr dt"
  shows "stamp (strftime dt @ [TAB] @ rest) = ts"
proof -
  from fromtimestamp_utc_ok [OF assms] have v: "valid_datetime dt" and u: "utc_timestamp dt = ts"
    by simp_all
  from v have b: "1 \<le> dt_year dt" "0 \<le> dt_month dt" "dt_month dt \<le> 99"
    "0 \<le> dt_day dt" "0 \<le> dt_hour dt" "dt_hour dt \<le> 99" "0 \<le> dt_minute dt"
    "dt_minute dt \<le> 99" "0 \<le> dt_second dt" "dt_second dt \<le> 99"
    by (simp_all add: valid_datetime_def)
  have d99: "dt_day dt \<le> 99"
  proof -
    from v have "1 \<le> dt_month dt" "dt_month dt \<le> 12"
      "dt_day dt \<le> days_in_month (dt_year dt) (dt_month dt)"
      by (simp_all add: valid_datetime_def)
    moreover from this(1,2) have "dt_month dt = 1 \<or> dt_month dt = 2 \<or> dt_month dt = 3
        \<or> dt_month dt = 4 \<or> dt_month dt = 5 \<or> dt_month dt = 6 \<or> dt_month dt = 7
        \<or> dt_month dt = 8 \<or> dt_month dt = 9 \<or> dt_month dt = 10 \<or> dt_month dt = 11
        \<or> dt_month dt = 12" by presburger
    ultimately show ?thesis
      by (elim disjE) (simp_all add: days_in_month_def DAYS_IN_MONTH_def split: if_splits)
  qed
  define ys where "ys = show_nat (nat (dt_year dt))"
  define tl where "tl = dec2 (dt_month dt) @ ''-'' @ dec2 (dt_day dt) @ '' ''
     @ dec2 (dt_hour dt) @ '':'' @ dec2 (dt_minute dt) @ '':'' @ dec2 (dt_second dt)"
  have s: "strftime dt = ys @ CHR ''-'' # tl" by (simp add: strftime_def ys_def tl_def)
  have ysd: "\<forall>c \<in> set ys. is_digit c" unfolding ys_def by (rule show_nat_digits)
  have tld: "\<forall>c \<in> set tl. c \<noteq> TAB"
    using digit_char_mod is_digit_plain by (auto simp: tl_def dec2_def TAB_def)
  have h: "takeWhile (\<lambda>c. c \<noteq> TAB) (strftime dt @ [TAB] @ rest) = strftime dt"
  proof -
    have "\<forall>c \<in> set (strftime dt). c \<noteq> TAB"
      using ysd tld is_digit_plain by (auto simp: s TAB_def)
    then show ?thesis using takeWhile_until [of "strftime dt" "\<lambda>c. c \<noteq> TAB" TAB rest] by simp
  qed
  have y: "takeWhile (\<lambda>c. c \<noteq> CHR ''-'') (strftime dt) = ys"
    unfolding s using ysd is_digit_plain by (intro takeWhile_until) auto
  have r: "drop (length ys + 1) (strftime dt) = tl" by (simp add: s)
  have parts: "take 2 tl = dec2 (dt_month dt)" "take 2 (drop 3 tl) = dec2 (dt_day dt)"
    "take 2 (drop 6 tl) = dec2 (dt_hour dt)" "take 2 (drop 9 tl) = dec2 (dt_minute dt)"
    "take 2 (drop 12 tl) = dec2 (dt_second dt)"
    by (simp_all add: tl_def dec2_def)
  have yv: "digits_value ys = dt_year dt"
    using b(1) by (simp add: ys_def digits_value_show_nat)
  have "stamp (strftime dt @ [TAB] @ rest) = utc_timestamp dt"
    unfolding stamp_def h Let_def y r parts yv
    using b d99 by (simp add: dec2_value utc_timestamp_def)
  with u show ?thesis by simp
qed

lemma hexchat_entry_stamp:
  assumes "hexchat_entry line = Some e"
  shows "stamp (snd e) = fst e"
proof -
  from assms obtain ts dt_str prefix message where
    p: "parse_hexchat_line line = Inr (Some (ts, dt_str, prefix, message))"
    and e: "e = (ts, dt_str @ [TAB] @ prefix @ [TAB] @ message)"
    by (auto simp: hexchat_entry_def split: sum.splits option.splits)
  from p obtain dt where "fromtimestamp_utc ts = Inr dt" "dt_str = strftime dt"
    by (auto simp: parse_hexchat_line_def Let_def split: if_splits sum.splits prod.splits)
  then show ?thesis using stamp_strftime [of ts dt "prefix @ [TAB] @ message"] by (simp add: e)
qed

lemma match_time_shape:
  assumes "match_time l = Some s"
  shows "\<exists>y1 y2 y3 y4 m1 m2 d1 d2 h1 h2 i1 i2 s1 s2 rest.
      l = [y1, y2, y3, y4, CHR ''-'', m1, m2, CHR ''-'', d1, d2, CHR '' '', h1, h2, CHR '':'',
           i1, i2, CHR '':'', s1, s2, TAB] @ rest
      \<and> is_digit y1 \<and> is_digit y2 \<and> is_digit y3 \<and> is_digit y4"
proof -
  from assms have "list_all2 (\<lambda>p c. p c) time_shape (take 20 l)"
    by (simp add: match_time_def split: if_splits)
  then obtain y1 y2 y3 y4 m1 m2 d1 d2 h1 h2 i1 i2 s1 s2 where
    t: "take 20 l = [y1, y2, y3, y4, CHR ''-'', m1, m2, CHR ''-'', d1, d2, CHR '' '', h1, h2,
           CHR '':'', i1, i2, CHR '':'', s1, s2, TAB]"
    and d: "is_digit y1" "is_digit y2" "is_digit y3" "is_digit y4"
    by (auto simp: time_shape_def list_all2_Cons1)
  have "l = take 20 l @ drop 20 l" by simp
  with t d show ?thesis by metis
qed

lemma weechat_entry_stamp:
  assumes "weechat_entry line = Some e"
  shows "stamp (snd e) = fst e"
proof -
  from assms have p: "parse_weechat_line line = Inr (Some e)"
    by (auto simp: weechat_entry_def split: sum.splits option.splits)
  define l where "l = rstrip_nl line"
  from p obtain s dt where m: "match_time l = Some s" and sp: "strptime s = Inr dt"
    and e: "e = (utc_timestamp dt, l)"
    by (auto simp: parse_weechat_line_def Let_def l_def split: if_splits option.splits sum.splits)
  from m have s: "s = take 19 l" by (simp add: match_time_def split: if_splits)
  from match_time_shape [OF m] obtain y1 y2 y3 y4 m1 m2 d1 d2 h1 h2 i1 i2 s1 s2 rest where
    l: "l = [y1, y2, y3, y4, CHR ''-'', m1, m2, CHR ''-'', d1, d2, CHR '' '', h1, h2, CHR '':'',
           i1, i2, CHR '':'', s1, s2, TAB] @ rest"
    and d: "is_digit y1" "is_digit y2" "is_digit y3" "is_digit y4" by blast
  note n = d [THEN is_digit_plain]
  have h: "takeWhile (\<lambda>c. c \<noteq> TAB) l = s"
  proof -
    from m l have "list_all2 (\<lambda>p c. p c) time_shape
        [y1, y2, y3, y4, CHR ''-'', m1, m2, CHR ''-'', d1, d2, CHR '' '', h1, h2, CHR '':'',
           i1, i2, CHR '':'', s1, s2, TAB]"
      by (simp add: match_time_def split: if_splits)
    then have "\<forall>c \<in> set [y1, y2, y3, y4, CHR ''-'', m1, m2, CHR ''-'', d1, d2, CHR '' '', h1, h2,
        CHR '':'', i1, i2, CHR '':'', s1, s2]. c \<noteq> TAB"
      using is_digit_plain by (auto simp: time_shape_def TAB_def)
    from takeWhile_until [OF this, of TAB rest] show ?thesis by (simp add: s l)
  qed
  have y: "takeWhile (\<lambda>c. c \<noteq> CHR ''-'') s = [y1, y2, y3, y4]"
    using n by (simp add: s l)
  have dt: "dt = \<lparr>dt_year = digits_value [y1, y2, y3, y4], dt_month = digits_value [m1, m2],
      dt_day = digits_value [d1, d2], dt_hour = digits_value [h1, h2],
      dt_minute = digits_value [i1, i2], dt_second = digits_value [s1, s2]\<rparr>"
    using sp by (simp add: strptime_def Let_def s l split: if_splits)
  have "stamp l = utc_timestamp dt"
    unfolding stamp_def h Let_def y by (simp add: s l dt)
  then show ?thesis by (simp add: e)
qed

section \<open>The entries that process_file gathers\<close>

lemma hexchat_loop_entries:
  assumes "hexchat_loop ls (es, c) = Inr (es', c')"
  shows "es' = es @ List.map_filter hexchat_entry ls
     \<and> c' = c + length (List.map_filter hexchat_entry ls)"
  using assms
proof (induction ls arbitrary: es c)
  case Nil
  then show ?case by (simp add: List.map_filter_simps)
next
  case (Cons l ls)
  show ?case
  proof (cases "parse_hexchat_line l")
    case (Inl e)
    with Cons.prems show ?thesis by simp
  next
    case (Inr r)
    show ?thesis
    proof (cases r)
      case None
      with Inr have "hexchat_entry l = None" by (simp add: hexchat_entry_def)
      with Cons None Inr show ?thesis by (simp add: List.map_filter_simps)
    next
      case (Some t)
      obtain ts dt_str prefix message where t: "t = (ts, dt_str, prefix, message)"
        by (cases t)
      let ?e = "(ts, dt_str @ [TAB] @ prefix @ [TAB] @ message)"
      have he: "hexchat_entry l = Some ?e" using Inr Some t by (simp add: hexchat_entry_def)
      from Cons.prems Inr Some t
      have "hexchat_loop ls (es @ [?e], c + 1) = Inr (es', c')" by simp
      from Cons.IH [OF this] he show ?thesis by (simp add: List.map_filter_simps)
    qed
  qed
qed

lemma weechat_loop_entries:
  assumes "weechat_loop ls (es, c) = Inr (es', c')"
  shows "es' = es @ List.map_filter weechat_entry ls
     \<and> c' = c + length (List.map_filter weechat_entry ls)"
  using assms
proof (induction ls arbitrary: es c)
  case Nil
  then show ?case by (simp add: List.map_filter_simps)
next
  case (Cons l ls)
  show ?case
  proof (cases "parse_weechat_line l")
    case (Inl e)
    with Cons.prems show ?thesis by simp
  next
    case (Inr r)
    show ?thesis
    proof (cases r)
      case None
      with Inr have "weechat_entry l = None" by (simp add: weechat_entry_def)
      with Cons None Inr show ?thesis by (simp add: List.map_filter_simps)
    next
      case (Some t)
      have we: "weechat_entry l = Some t" using Inr Some by (simp add: weechat_entry_def)
      from Cons.prems Inr Some
      have "weechat_loop ls (es @ [t], c + 1) = Inr (es', c')" by simp
      from Cons.IH [OF this] we show ?thesis by (simp add: List.map_filter_simps)
    qed
  qed
qed

lemma subdirs_loop_entries:
  assumes "fst (subdirs_loop base ds (es, c) s1) = Inr (es', c')" and "files s1 = files s"
  shows "es' = es @ concat (map (subdir_entries base s) ds)
     \<and> c' = c + length (concat (map (subdir_entries base s) ds))"
  using assms
proof (induction ds arbitrary: es c s1)
  case Nil
  then show ?case by simp
next
  case (Cons d ds)
  let ?p = "path_join (path_join HEXCHAT_DIR d) base"
  show ?case
  proof (cases "files s ?p")
    case None
    then have se: "subdir_entries base s d = []" by (simp add: subdir_entries_def)
    from Cons.prems None
    have "fst (subdirs_loop base ds (es, c) (log_event (Exists ?p) s1)) = Inr (es', c')"
      by (simp add: Let_def)
    moreover have "files (log_event (Exists ?p) s1) = files s"
      using Cons.prems(2) by (simp add: log_event_def)
    ultimately show ?thesis using Cons.IH se by simp
  next
    case (Some content)
    then have se: "subdir_entries base s d = List.map_filter hexchat_entry (file_lines content)"
      by (simp add: subdir_entries_def)
    show ?thesis
    proof (cases "hexchat_loop (file_lines content) (es, c)")
      case (Inl e)
      with Some Cons.prems show ?thesis by (simp add: Let_def)
    next
      case (Inr st)
      obtain es1 c1 where st: "st = (es1, c1)" by (cases st)
      from hexchat_loop_entries [OF Inr [unfolded st]] se
      have one: "es1 = es @ subdir_entries base s d" "c1 = c + length (subdir_entries base s d)"
        by simp_all
      from Cons.prems Some Inr st
      have "fst (subdirs_loop base ds (es1, c1)
          (log_event (Read ?p) (log_event (Exists ?p) s1))) = Inr (es', c')"
        by (simp add: Let_def)
      moreover have "files (log_event (Read ?p) (log_event (Exists ?p) s1)) = files s"
        using Cons.prems(2) by (simp add: log_event_def)
      ultimately have "es' = es1 @ concat (map (subdir_entries base s) ds)
         \<and> c' = c1 + length (concat (map (subdir_entries base s) ds))"
        using Cons.IH by blast
      with one show ?thesis by simp
    qed
  qed
qed

lemma process_file_result:
  assumes "process_file base s = (Inr (h, w, k), s')" and "h \<noteq> 0"
  shows "files s' (path_join WEECHAT_DIR (hexchat_to_weechat_filename base))
        = Some (serialize (dedup (sort_entries
            (converted_entries base s @ existing_entries base s))))
     \<and> h = length (converted_entries base s)
     \<and> w = length (existing_entries base s)
     \<and> k = length (dedup (sort_entries (converted_entries base s @ existing_entries base s)))"
proof -
  let ?wp = "path_join WEECHAT_DIR (hexchat_to_weechat_filename base)"
  obtain r1 s1 where sl: "subdirs_loop base SUBDIRS ([], 0) s = (r1, s1)"
    by (cases "subdirs_loop base SUBDIRS ([], 0) s")
  from assms sl obtain es1 where r1: "r1 = Inr (es1, h)"
    by (cases r1)
      (auto simp: process_file_def Let_def split: if_splits prod.splits sum.splits option.splits)
  from subdirs_loop_entries [of base SUBDIRS "[]" 0 s es1 h s] sl r1
  have new: "es1 = converted_entries base s" "h = length (converted_entries base s)"
    by (simp_all add: converted_entries_def)
  have f1: "files s1 = files s" using subdirs_loop_files [of base SUBDIRS "([], 0)" s] sl by simp
  let ?s2 = "log_event (Exists ?wp) s1"
  have f2: "files ?s2 ?wp = files s ?wp" by (simp add: log_event_def f1)
  show ?thesis
  proof (cases "files s ?wp")
    case None
    then have old: "existing_entries base s = []" by (simp add: existing_entries_def)
    from assms sl r1 None f2
    have "files s' ?wp = Some (serialize (dedup (sort_entries es1)))"
      "k = length (dedup (sort_entries es1))" "w = 0"
      by (auto simp: process_file_def Let_def log_event_def)
    with new old show ?thesis by simp
  next
    case (Some content)
    then have old: "existing_entries base s = List.map_filter weechat_entry (file_lines content)"
      by (simp add: existing_entries_def)
    show ?thesis
    proof (cases "weechat_loop (file_lines content) (es1, 0)")
      case (Inl e)
      with assms sl r1 Some f2 show ?thesis by (simp add: process_file_def Let_def)
    next
      case (Inr st)
      obtain es2 c2 where st: "st = (es2, c2)" by (cases st)
      from weechat_loop_entries [OF Inr [unfolded st]] old
      have two: "es2 = es1 @ existing_entries base s" "c2 = length (existing_entries base s)"
        by simp_all
      from assms sl r1 Some Inr st f2
      have "files s' ?wp = Some (serialize (dedup (sort_entries es2)))"
        "k = length (dedup (sort_entries es2))" "w = c2"
        by (auto simp: process_file_def Let_def log_event_def)
      with new two show ?thesis by simp
    qed
  qed
qed

lemma map_filter_mem: "e \<in> set (List.map_filter f xs) \<Longrightarrow> \<exists>x \<in> set xs. f x = Some e"
  by (auto simp: List.map_filter_def)

lemma gathered_stamp:
  assumes "e \<in> set (converted_entries base s @ existing_entries base s)"
  shows "stamp (snd e) = fst e"
proof -
  from assms consider (new) "e \<in> set (converted_entries base s)"
    | (old) "e \<in> set (existing_entries base s)" by auto
  then show ?thesis
  proof cases
    case new
    then obtain d where "e \<in> set (subdir_entries base s d)"
      by (auto simp: converted_entries_def)
    then obtain l where "hexchat_entry l = Some e"
      by (auto simp: subdir_entries_def split: option.splits dest: map_filter_mem)
    then show ?thesis by (rule hexchat_entry_stamp)
  next
    case old
    then obtain l where "weechat_entry l = Some e"
      by (auto simp: existing_entries_def split: option.splits dest: map_filter_mem)
    then show ?thesis by (rule weechat_entry_stamp)
  qed
qed

lemma gathered_inj:
  "inj_on snd (set (sort_entries (converted_entries base s @ existing_entries base s)))"
proof (rule inj_onI)
  fix a b
  assume "a \<in> set (sort_entries (converted_entries base s @ existing_entries base s))"
    "b \<in> set (sort_entries (converted_entries base s @ existing_entries base s))"
    and eq: "snd a = snd b"
  then have "a \<in> set (converted_entries base s @ existing_entries base s)"
    "b \<in> set (converted_entries base s @ existing_entries base s)"
    by (simp_all add: sort_entries_def)
  then have "stamp (snd a) = fst a" "stamp (snd b) = fst b" by (simp_all only: gathered_stamp)
  with eq show "a = b" by (simp add: prod_eq_iff)
qed

section \<open>Deduplication of adjacent lines\<close>

lemma dedup_loop_by_line:
  assumes "inj_on snd (set out \<union> set es)"
    and "prev = (if out = [] then None else Some (last out))"
  shows "dedup_loop es prev out = dedup_by_line es out"
  using assms
proof (induction es arbitrary: prev out)
  case Nil
  then show ?case by simp
next
  case (Cons e es)
  let ?out = "if Some e \<noteq> prev then out @ [e] else out"
  have same: "(Some e \<noteq> prev) = (\<not> (out \<noteq> [] \<and> snd (last out) = snd e))"
  proof (cases "out = []")
    case True
    with Cons.prems(2) show ?thesis by simp
  next
    case False
    then have "last out \<in> set out \<union> set (e # es)" by simp
    moreover have "e \<in> set out \<union> set (e # es)" by simp
    ultimately have "(snd (last out) = snd e) = (last out = e)"
      using Cons.prems(1) by (meson inj_on_eq_iff)
    with False Cons.prems(2) show ?thesis by auto
  qed
  have sub: "set ?out \<union> set es \<subseteq> set out \<union> set (e # es)" by auto
  have inj: "inj_on snd (set ?out \<union> set es)"
    by (rule inj_on_subset [OF Cons.prems(1) sub])
  have prev: "Some e = (if ?out = [] then None else Some (last ?out))"
    using Cons.prems(2) by (auto split: if_splits)
  have "dedup_loop (e # es) prev out = dedup_loop es (Some e) ?out" by simp
  also have "\<dots> = dedup_by_line es ?out" by (rule Cons.IH [OF inj prev])
  also have "\<dots> = dedup_by_line (e # es) out" using same by simp
  finally show ?case .
qed

lemma dedup_by_line_eq: "inj_on snd (set entries) \<Longrightarrow> dedup entries = dedup_by_line entries []"
  unfolding dedup_def by (intro dedup_loop_by_line) simp_all

lemma dedup_loop_sorted:
  "sorted (map fst (out @ es)) \<Longrightarrow> sorted (map fst (dedup_loop es prev out))"
proof (induction es arbitrary: prev out)
  case Nil
  then show ?case by simp
next
  case (Cons e es)
  have "sorted (map fst ((if Some e \<noteq> prev then out @ [e] else out) @ es))"
    using Cons.prems by (auto simp: sorted_append)
  from Cons.IH [OF this] show ?case by simp
qed

lemma dedup_sorted: "sorted (map fst entries) \<Longrightarrow> sorted (map fst (dedup entries))"
  unfolding dedup_def by (rule dedup_loop_sorted) simp

text \<open>
  Claim C4. The loop of the source compares whole entries, timestamp and line, with the
  entry before. When \<^verbatim>\<open>process_file\<close> returns counts, the file it has written is the
  deduplication of the specification applied to the sorted combined sequence, the
  converted entries followed by the existing ones: a record is dropped exactly when its
  line is the line of the last output record. This is so because every gathered entry
  carries the timestamp that its own line spells out, whatever the year, so that two
  entries with the same line are the same entry. Only neighbours are compared, so of
  \<open>A, A, B, A\<close> the records \<open>A, B, A\<close> remain.
\<close>

theorem dedup_adjacent_lines:
  "(process_file base s = (Inr (h, w, k), s') \<and> h \<noteq> 0 \<longrightarrow>
      files s' (path_join WEECHAT_DIR (hexchat_to_weechat_filename base))
        = Some (serialize (dedup_by_line (sort_entries
            (converted_entries base s @ existing_entries base s)) []))
      \<and> k = length (dedup_by_line (sort_entries
            (converted_entries base s @ existing_entries base s)) []))
   \<and> (inj_on snd (set entries) \<longrightarrow> dedup entries = dedup_by_line entries [])
   \<and> (A \<noteq> B \<longrightarrow> dedup [A, A, B, A] = [A, B, A])"
proof -
  let ?all = "sort_entries (converted_entries base s @ existing_entries base s)"
  have eq: "dedup ?all = dedup_by_line ?all []"
    by (rule dedup_by_line_eq) (rule gathered_inj)
  have p: "files s' (path_join WEECHAT_DIR (hexchat_to_weechat_filename base))
        = Some (serialize (dedup_by_line ?all []))
      \<and> k = length (dedup_by_line ?all [])"
    if "process_file base s = (Inr (h, w, k), s')" "h \<noteq> 0"
    using process_file_result [OF that] by (simp add: eq)
  have d: "dedup [A, A, B, A] = [A, B, A]" if "A \<noteq> B"
    using that by (auto simp: dedup_def)
  from p d dedup_by_line_eq show ?thesis by blast
qed

theorem dedup_adjacent_lines_witness:
  "process_file ''chan.txt'' merge_fs
     = (Inr (2, 1, 2), snd (process_file ''chan.txt'' merge_fs))
   \<and> converted_entries ''chan.txt'' merge_fs @ existing_entries ''chan.txt'' merge_fs
     = [(1700000000, ''2023-11-14 22:13:20'' @ [TAB] @ ''<alice>'' @ [TAB] @ ''Hello''),
        (1700000000, ''2023-11-14 22:13:20'' @ [TAB] @ ''<alice>'' @ [TAB] @ ''Hello''),
        (1700000001, ''2023-11-14 22:13:21'' @ [TAB] @ ''<bob>'' @ [TAB] @ ''Hi'')]
   \<and> files (snd (process_file ''chan.txt'' merge_fs)) (path_join WEECHAT_DIR ''chan.log'')
     = Some (serialize (dedup_by_line (sort_entries
         (converted_entries ''chan.txt'' merge_fs @ existing_entries ''chan.txt'' merge_fs)) []))
   \<and> files (snd (process_file ''chan.txt'' merge_fs)) (path_join WEECHAT_DIR ''chan.log'')
     = Some (''2023-11-14 22:13:20'' @ [TAB] @ ''<alice>'' @ [TAB] @ ''Hello'' @ [NL]
           @ ''2023-11-14 22:13:21'' @ [TAB] @ ''<bob>'' @ [TAB] @ ''Hi'' @ [NL])
   \<and> dedup [(5, ''5 a''), (5, ''5 a''), (5, ''5 b''), (5, ''5 a'')]
     = dedup_by_line [(5, ''5 a''), (5, ''5 a''), (5, ''5 b''), (5, ''5 a'')] []
   \<and> dedup [(5, ''5 a''), (5, ''5 a''), (5, ''5 b''), (5, ''5 a'')]
     = [(5, ''5 a''), (5, ''5 b''), (5, ''5 a'')]"
proof -
  have "fst (process_file ''chan.txt'' merge_fs) = Inr (2, 1, 2)" by code_simp
  then have run: "process_file ''chan.txt'' merge_fs
     = (Inr (2, 1, 2), snd (process_file ''chan.txt'' merge_fs))"
    by (metis prod.collapse)
  have gathered: "converted_entries ''chan.txt'' merge_fs @ existing_entries ''chan.txt'' merge_fs
     = [(1700000000, ''2023-11-14 22:13:20'' @ [TAB] @ ''<alice>'' @ [TAB] @ ''Hello''),
        (1700000000, ''2023-11-14 22:13:20'' @ [TAB] @ ''<alice>'' @ [TAB] @ ''Hello''),
        (1700000001, ''2023-11-14 22:13:21'' @ [TAB] @ ''<bob>'' @ [TAB] @ ''Hi'')]"
    by code_simp
  have out: "files (snd (process_file ''chan.txt'' merge_fs)) (path_join WEECHAT_DIR ''chan.log'')
     = Some (''2023-11-14 22:13:20'' @ [TAB] @ ''<alice>'' @ [TAB] @ ''Hello'' @ [NL]
           @ ''2023-11-14 22:13:21'' @ [TAB] @ ''<bob>'' @ [TAB] @ ''Hi'' @ [NL])"
    by code_simp
  have name: "hexchat_to_weechat_filename ''chan.txt'' = ''chan.log''" by code_simp
  have h: "(2::nat) \<noteq> 0" by simp
  have i: "inj_on snd (set [(5::int, ''5 a''), (5, ''5 a''), (5, ''5 b''), (5, ''5 a'')])"
    by (simp add: inj_on_def)
  have n: "(5::int, ''5 a'') \<noteq> (5, ''5 b'')" by simp
  from dedup_adjacent_lines [of "''chan.txt''" merge_fs 2 1 2
      "snd (process_file ''chan.txt'' merge_fs)"
      "[(5, ''5 a''), (5, ''5 a''), (5, ''5 b''), (5, ''5 a'')]" "(5, ''5 a'')" "(5, ''5 b'')"]
    run h i n name
  have "files (snd (process_file ''chan.txt'' merge_fs)) (path_join WEECHAT_DIR ''chan.log'')
       = Some (serialize (dedup_by_line (sort_entries
           (converted_entries ''chan.txt'' merge_fs @ existing_entries ''chan.txt'' merge_fs)) []))
     \<and> dedup [(5, ''5 a''), (5, ''5 a''), (5, ''5 b''), (5, ''5 a'')]
       = dedup_by_line [(5, ''5 a''), (5, ''5 a''), (5, ''5 b''), (5, ''5 a'')] []
     \<and> dedup [(5, ''5 a''), (5, ''5 a''), (5, ''5 b''), (5, ''5 a'')]
       = [(5, ''5 a''), (5, ''5 b''), (5, ''5 a'')]"
    by auto
  with run gathered out show ?thesis by blast
qed

section \<open>The merge sorts, and the sort is stable\<close>

text \<open>
  Claim C5. When \<^verbatim>\<open>process_file\<close> returns counts, the file it has written is the
  serialization of the deduplicated sort of the converted entries followed by the
  existing entries, and its timestamps ascend. The sort orders by timestamp, and for
  every timestamp the entries bearing it come out in the order they went in, the new
  ones before the old ones; so a new entry stands before an old entry of the same
  timestamp.
\<close>

theorem merge_sort_stable:
  "(process_file base s = (Inr (h, w, k), s') \<and> h \<noteq> 0 \<longrightarrow>
      files s' (path_join WEECHAT_DIR (hexchat_to_weechat_filename base))
        = Some (serialize (dedup (sort_entries
            (converted_entries base s @ existing_entries base s))))
      \<and> sorted (map fst (dedup (sort_entries
            (converted_entries base s @ existing_entries base s)))))
   \<and> sorted (map fst (sort_entries (new @ old)))
   \<and> (\<forall>t. filter (\<lambda>e. fst e = t) (sort_entries (new @ old))
          = filter (\<lambda>e. fst e = t) new @ filter (\<lambda>e. fst e = t) old)
   \<and> (\<forall>a \<in> set new. \<forall>b \<in> set old. fst a = fst b \<longrightarrow>
        (\<exists>i j. i < j \<and> j < length (sort_entries (new @ old))
               \<and> sort_entries (new @ old) ! i = a \<and> sort_entries (new @ old) ! j = b))"
proof -
  let ?out = "sort_entries (new @ old)"
  have srt: "sorted (map fst (sort_entries xs))" for xs by (simp add: sort_entries_def)
  have f: "filter (\<lambda>e. fst e = t) ?out = filter (\<lambda>e. fst e = t) new @ filter (\<lambda>e. fst e = t) old"
    for t by (simp add: sort_entries_def sort_key_stable)
  have p: "\<exists>i j. i < j \<and> j < length ?out \<and> ?out ! i = a \<and> ?out ! j = b"
    if "a \<in> set new" "b \<in> set old" "fst a = fst b" for a b
  proof -
    from f [of "fst a"] obtain us vs where uv: "?out = us @ vs"
      "filter (\<lambda>e. fst e = fst a) us = filter (\<lambda>e. fst e = fst a) new"
      "filter (\<lambda>e. fst e = fst a) vs = filter (\<lambda>e. fst e = fst a) old"
      using filter_append_split by blast
    have "a \<in> set (filter (\<lambda>e. fst e = fst a) new)" using that by simp
    then have au: "a \<in> set us" unfolding uv(2) [symmetric] by simp
    have "b \<in> set (filter (\<lambda>e. fst e = fst a) old)" using that by simp
    then have bv: "b \<in> set vs" unfolding uv(3) [symmetric] by simp
    show ?thesis unfolding uv(1) by (rule append_order [OF au bv])
  qed
  have w: "files s' (path_join WEECHAT_DIR (hexchat_to_weechat_filename base))
        = Some (serialize (dedup (sort_entries
            (converted_entries base s @ existing_entries base s))))
      \<and> sorted (map fst (dedup (sort_entries
            (converted_entries base s @ existing_entries base s))))"
    if "process_file base s = (Inr (h, w, k), s')" "h \<noteq> 0"
    using process_file_result [OF that] dedup_sorted [OF srt] by simp
  from w srt f p show ?thesis by blast
qed

theorem merge_sort_stable_witness:
  "process_file ''chan.txt'' tie_fs
     = (Inr (2, 1, 3), snd (process_file ''chan.txt'' tie_fs))
   \<and> converted_entries ''chan.txt'' tie_fs
     = [(1700000002, ''2023-11-14 22:13:22'' @ [TAB] @ ''<alice>'' @ [TAB] @ ''later''),
        (1700000001, ''2023-11-14 22:13:21'' @ [TAB] @ ''<alice>'' @ [TAB] @ ''Hello'')]
   \<and> existing_entries ''chan.txt'' tie_fs
     = [(1700000001, ''2023-11-14 22:13:21'' @ [TAB] @ ''<bob>'' @ [TAB] @ ''Hi'')]
   \<and> files (snd (process_file ''chan.txt'' tie_fs)) (path_join WEECHAT_DIR ''chan.log'')
     = Some (serialize (dedup (sort_entries
         (converted_entries ''chan.txt'' tie_fs @ existing_entries ''chan.txt'' tie_fs))))
   \<and> files (snd (process_file ''chan.txt'' tie_fs)) (path_join WEECHAT_DIR ''chan.log'')
     = Some (''2023-11-14 22:13:21'' @ [TAB] @ ''<alice>'' @ [TAB] @ ''Hello'' @ [NL]
           @ ''2023-11-14 22:13:21'' @ [TAB] @ ''<bob>'' @ [TAB] @ ''Hi'' @ [NL]
           @ ''2023-11-14 22:13:22'' @ [TAB] @ ''<alice>'' @ [TAB] @ ''later'' @ [NL])
   \<and> (\<exists>i j. i < j
         \<and> sort_entries (converted_entries ''chan.txt'' tie_fs
              @ existing_entries ''chan.txt'' tie_fs) ! i
           = (1700000001, ''2023-11-14 22:13:21'' @ [TAB] @ ''<alice>'' @ [TAB] @ ''Hello'')
         \<and> sort_entries (converted_entries ''chan.txt'' tie_fs
              @ existing_entries ''chan.txt'' tie_fs) ! j
           = (1700000001, ''2023-11-14 22:13:21'' @ [TAB] @ ''<bob>'' @ [TAB] @ ''Hi''))"
proof -
  let ?a = "(1700000001::int, ''2023-11-14 22:13:21'' @ [TAB] @ ''<alice>'' @ [TAB] @ ''Hello'')"
  let ?b = "(1700000001::int, ''2023-11-14 22:13:21'' @ [TAB] @ ''<bob>'' @ [TAB] @ ''Hi'')"
  have "fst (process_file ''chan.txt'' tie_fs) = Inr (2, 1, 3)" by code_simp
  then have run: "process_file ''chan.txt'' tie_fs
     = (Inr (2, 1, 3), snd (process_file ''chan.txt'' tie_fs))"
    by (metis prod.collapse)
  have new: "converted_entries ''chan.txt'' tie_fs
     = [(1700000002, ''2023-11-14 22:13:22'' @ [TAB] @ ''<alice>'' @ [TAB] @ ''later''), ?a]"
    by code_simp
  have old: "existing_entries ''chan.txt'' tie_fs = [?b]" by code_simp
  have out: "files (snd (process_file ''chan.txt'' tie_fs)) (path_join WEECHAT_DIR ''chan.log'')
     = Some (''2023-11-14 22:13:21'' @ [TAB] @ ''<alice>'' @ [TAB] @ ''Hello'' @ [NL]
           @ ''2023-11-14 22:13:21'' @ [TAB] @ ''<bob>'' @ [TAB] @ ''Hi'' @ [NL]
           @ ''2023-11-14 22:13:22'' @ [TAB] @ ''<alice>'' @ [TAB] @ ''later'' @ [NL])"
    by code_simp
  have name: "hexchat_to_weechat_filename ''chan.txt'' = ''chan.log''" by code_simp
  have h: "(2::nat) \<noteq> 0" by simp
  have a: "?a \<in> set (converted_entries ''chan.txt'' tie_fs)" by (simp add: new)
  have b: "?b \<in> set (existing_entries ''chan.txt'' tie_fs)" by (simp add: old)
  have t: "fst ?a = fst ?b" by simp
  from merge_sort_stable [of "''chan.txt''" tie_fs 2 1 3 "snd (process_file ''chan.txt'' tie_fs)"
      "converted_entries ''chan.txt'' tie_fs" "existing_entries ''chan.txt'' tie_fs"]
    run h name
  have w: "files (snd (process_file ''chan.txt'' tie_fs)) (path_join WEECHAT_DIR ''chan.log'')
     = Some (serialize (dedup (sort_entries
         (converted_entries ''chan.txt'' tie_fs @ existing_entries ''chan.txt'' tie_fs))))"
    and st: "\<forall>a \<in> set (converted_entries ''chan.txt'' tie_fs).
      \<forall>b \<in> set (existing_entries ''chan.txt'' tie_fs). fst a = fst b \<longrightarrow>
        (\<exists>i j. i < j \<and> j < length (sort_entries (converted_entries ''chan.txt'' tie_fs
                  @ existing_entries ''chan.txt'' tie_fs))
           \<and> sort_entries (converted_entries ''chan.txt'' tie_fs
                  @ existing_entries ''chan.txt'' tie_fs) ! i = a
           \<and> sort_entries (converted_entries ''chan.txt'' tie_fs
                  @ existing_entries ''chan.txt'' tie_fs) ! j = b)"
    by simp_all
  from st a b t have "\<exists>i j. i < j
         \<and> sort_entries (converted_entries ''chan.txt'' tie_fs
              @ existing_entries ''chan.txt'' tie_fs) ! i = ?a
         \<and> sort_entries (converted_entries ''chan.txt'' tie_fs
              @ existing_entries ''chan.txt'' tie_fs) ! j = ?b"
    by blast
  with run new old w out show ?thesis by blast
qed

end
